theory Spec2Isabelle
  imports Main "HOL-Library.Sublist"
begin

section \<open>BaseEventEmitter: subscriptions, emission and listener bodies\<close>

subsection \<open>Values, listener functions and what a listener body may do\<close>

text \<open>
  JavaScript values that travel through the emitter as event arguments and calling
  contexts. \<open>Ref\<close> is a reference to an object by identity.
\<close>

datatype val = Undefined | Null | Str string | Num int | Ref nat

text \<open>
  What a call can throw: \<open>Error msg\<close> is \<^verbatim>\<open>Error(msg)\<close> as thrown by
  \<^verbatim>\<open>removeCurrentListener\<close>, \<open>Thrown v\<close> is a listener's own \<^verbatim>\<open>throw v\<close>,
  \<open>TypeError\<close> is a method call on an undefined handle, and \<open>RangeError\<close> is the
  engine's "Maximum call stack size exceeded".
\<close>

datatype exn = Error string | Thrown val | TypeError | RangeError

text \<open>
  Listeners are caller-supplied functions. A function value is either a user function
  \<open>Fn name body\<close>, whose body is a sequence of calls on the emitter's public interface
  (and on subscription handles), or the closure that \<^verbatim>\<open>once\<close> builds around a
  listener and a context (lines 71-74 of BaseEventEmitter.js).
\<close>

datatype func = Fn nat "cmd list" | OnceWrapper func val
and cmd =
    AddListener string func val
  | Once string func val
  | RemoveAllListeners "string option"
  | RemoveCurrentListener
  | Remove nat
  | Emit string "val list"
  | Throw val

subsection \<open>State\<close>

text \<open>
  Modelled from the spec: the EmitterSubscription object (its module is required on
  line 13 and is not part of the sources). It holds the listener, the optional context,
  and the identity the vendor uses to locate its slot: the event type and the slot key.
\<close>

record subscription =
  listener :: func
  context' :: val
  eventType :: string
  key :: nat

text \<open>
  The emitter with its vendor. Objects are identified by their position in a table, so
  that aliasing is explicit: \<open>objs\<close> holds the subscription objects ever created,
  \<open>arrays\<close> the ordered collections ever created (a slot holds a subscription's
  identity, or \<open>None\<close> where the slot is absent), \<open>subscriptionsForType\<close> maps an
  event type to its current collection, and \<open>currentSubscription\<close> is the field
  \<^verbatim>\<open>_currentSubscription\<close>. \<open>calls\<close> records every application of a listener
  function (the function, its receiver and its arguments), as a mock function would.
  The vendor's two tables follow the spec's description of the vendor state (an ordered
  collection of slots per event type, a removed slot being marked absent), its module
  EventSubscriptionVendor not being part of the sources.
\<close>

record emitter =
  objs :: "subscription list"
  arrays :: "nat option list list"
  subscriptionsForType :: "string \<rightharpoonup> nat"
  currentSubscription :: "nat option"
  calls :: "(func \<times> val \<times> val list) list"

text \<open>A call either returns or throws; the mutations made before a throw persist.\<close>

datatype outcome = Returned emitter | Threw exn emitter

fun state_of :: "outcome \<Rightarrow> emitter" where
  "state_of (Returned st) = st"
| "state_of (Threw e st) = st"

fun returns :: "outcome \<Rightarrow> bool" where
  "returns (Returned st) = True"
| "returns (Threw e st) = False"

text \<open>The constructor (lines 33-36): a fresh vendor and no current subscription.\<close>

definition new_emitter :: emitter where
  "new_emitter = \<lparr>objs = [], arrays = [], subscriptionsForType = Map.empty,
     currentSubscription = None, calls = []\<rparr>"

text \<open>Reads of a collection and of a slot; an index that is out of range reads as absent.\<close>

definition array_at :: "emitter \<Rightarrow> nat \<Rightarrow> nat option list" where
  "array_at st a = (if a < length (arrays st) then arrays st ! a else [])"

definition slot_at :: "emitter \<Rightarrow> nat \<Rightarrow> nat \<Rightarrow> nat option" where
  "slot_at st a k = (if k < length (array_at st a) then array_at st a ! k else None)"

subsection \<open>The vendor\<close>

text \<open>
  Modelled from the spec: \<^verbatim>\<open>new EmitterSubscription(subscriber, listener, context)\<close>.
  The event type and key are assigned by \<open>addSubscription\<close>.
\<close>

definition new_EmitterSubscription :: "func \<Rightarrow> val \<Rightarrow> emitter \<Rightarrow> nat \<times> emitter" where
  "new_EmitterSubscription l c st =
     (length (objs st),
      st\<lparr>objs := objs st @ [\<lparr>listener = l, context' = c, eventType = [], key = 0\<rparr>]\<rparr>)"

text \<open>
  Modelled from the spec: EventSubscriptionVendor.addSubscription appends to the ordered
  collection of the event type, creating it if absent, assigns the slot key, and returns
  the subscription.
\<close>

definition addSubscription :: "string \<Rightarrow> nat \<Rightarrow> emitter \<Rightarrow> nat \<times> emitter" where
  "addSubscription t s st =
     (let st1 = (case subscriptionsForType st t of
                   Some a \<Rightarrow> st
                 | None \<Rightarrow> st\<lparr>arrays := arrays st @ [[]],
                             subscriptionsForType := (subscriptionsForType st)(t \<mapsto> length (arrays st))\<rparr>);
          a = the (subscriptionsForType st1 t);
          k = length (array_at st1 a)
      in (s, st1\<lparr>arrays := (arrays st1)[a := array_at st1 a @ [Some s]],
                 objs := (objs st1)[s := (objs st1 ! s)\<lparr>eventType := t, key := k\<rparr>]\<rparr>))"

text \<open>
  Modelled from the spec: EventSubscriptionVendor.getSubscriptionsForType returns the
  live collection (a reference, here its address), or nothing if none exists.
\<close>

definition getSubscriptionsForType :: "string \<Rightarrow> emitter \<Rightarrow> nat option" where
  "getSubscriptionsForType t st = subscriptionsForType st t"

text \<open>
  Modelled from the spec: EventSubscriptionVendor.removeSubscription marks the
  subscription's slot absent within its event type's collection; it is idempotent and a
  no-op when the type has no collection or the slot no longer holds the subscription.
\<close>

definition removeSubscription :: "nat \<Rightarrow> emitter \<Rightarrow> emitter" where
  "removeSubscription s st =
     (case subscriptionsForType st (eventType (objs st ! s)) of
        None \<Rightarrow> st
      | Some a \<Rightarrow>
          (if slot_at st a (key (objs st ! s)) = Some s
           then st\<lparr>arrays := (arrays st)[a := (array_at st a)[key (objs st ! s) := None]]\<rparr>
           else st))"

text \<open>
  Modelled from the spec: EventSubscriptionVendor.removeAllSubscriptions clears the
  bucket of the given type, or every bucket when no type is given.
\<close>

definition removeAllSubscriptions :: "string option \<Rightarrow> emitter \<Rightarrow> emitter" where
  "removeAllSubscriptions t st =
     (case t of
        None \<Rightarrow> st\<lparr>subscriptionsForType := Map.empty\<rparr>
      | Some ty \<Rightarrow> st\<lparr>subscriptionsForType := (subscriptionsForType st)(ty := None)\<rparr>)"

subsection \<open>The emitter\<close>

text \<open>\<^verbatim>\<open>addListener\<close> (lines 52-57).\<close>

definition addListener :: "string \<Rightarrow> func \<Rightarrow> val \<Rightarrow> emitter \<Rightarrow> nat \<times> emitter" where
  "addListener t l c st =
     (let (s, st1) = new_EmitterSubscription l c st in addSubscription t s st1)"

text \<open>
  \<^verbatim>\<open>once\<close> (lines 69-75): the wrapper closure is registered, and no context is passed
  on to \<^verbatim>\<open>addListener\<close>.
\<close>

definition once :: "string \<Rightarrow> func \<Rightarrow> val \<Rightarrow> emitter \<Rightarrow> nat \<times> emitter" where
  "once t l c st = addListener t (OnceWrapper l c) Undefined st"

text \<open>\<^verbatim>\<open>removeAllListeners\<close> (lines 84-86).\<close>

definition removeAllListeners :: "string option \<Rightarrow> emitter \<Rightarrow> emitter" where
  "removeAllListeners t st = removeAllSubscriptions t st"

text \<open>\<^verbatim>\<open>removeCurrentListener\<close> (lines 110-115).\<close>

definition removeCurrentListener :: "emitter \<Rightarrow> outcome" where
  "removeCurrentListener st =
     (case currentSubscription st of
        None \<Rightarrow> Threw (Error ''Not in an emitting cycle; there is no current subscription'') st
      | Some s \<Rightarrow> Returned (removeSubscription s st))"

text \<open>
  \<^verbatim>\<open>Object.keys\<close> of a collection: the indices of the slots that are present, in
  ascending order. \<^verbatim>\<open>filter(() => true)\<close> of a collection: the present elements.
\<close>

definition Object_keys :: "nat option list \<Rightarrow> nat list" where
  "Object_keys xs = filter (\<lambda>k. xs ! k \<noteq> None) [0..<length xs]"

definition filter_true :: "nat option list \<Rightarrow> nat list" where
  "filter_true xs = List.map_filter id xs"

text \<open>\<^verbatim>\<open>listeners\<close> (lines 124-132).\<close>

definition listeners :: "string \<Rightarrow> emitter \<Rightarrow> nat list" where
  "listeners t st =
     (case getSubscriptionsForType t st of
        None \<Rightarrow> []
      | Some a \<Rightarrow> filter_true (array_at st a))"

text \<open>
  \<^verbatim>\<open>__emitToSubscription\<close> (lines 177-180). It is applied to the subscription followed
  by the arguments of \<^verbatim>\<open>emit\<close>, and passes on what follows the first two. The
  parameter \<open>ap\<close> is function application (\<^verbatim>\<open>listener.apply(context, args)\<close>).
\<close>

type_synonym applier = "func \<Rightarrow> val \<Rightarrow> val list \<Rightarrow> emitter \<Rightarrow> outcome"

definition emitToSubscription :: "applier \<Rightarrow> nat \<Rightarrow> val list \<Rightarrow> emitter \<Rightarrow> outcome" where
  "emitToSubscription ap s arguments st =
     (let args = drop 2 (Ref s # arguments)
      in ap (listener (objs st ! s)) (context' (objs st ! s)) args st)"

text \<open>
  The loop of \<^verbatim>\<open>emit\<close> (lines 152-163) over the snapshot of keys, reading the live
  collection \<open>a\<close> at each key. Besides the outcome it returns the subscriptions it
  invoked, in order.
\<close>

fun emit_loop :: "applier \<Rightarrow> nat \<Rightarrow> nat list \<Rightarrow> val list \<Rightarrow> emitter \<Rightarrow> nat list \<times> outcome" where
  "emit_loop ap a [] arguments st = ([], Returned st)"
| "emit_loop ap a (k # ks) arguments st =
     (case slot_at st a k of
        None \<Rightarrow> emit_loop ap a ks arguments st
      | Some s \<Rightarrow>
          (case emitToSubscription ap s arguments (st\<lparr>currentSubscription := Some s\<rparr>) of
             Threw e st' \<Rightarrow> ([s], Threw e st')
           | Returned st' \<Rightarrow>
               (case emit_loop ap a ks arguments st' of (ds, r) \<Rightarrow> (s # ds, r))))"

text \<open>
  \<^verbatim>\<open>emit\<close> (lines 148-166). Its \<^verbatim>\<open>arguments\<close> are the event type followed by the
  data arguments.
\<close>

definition emit :: "applier \<Rightarrow> string \<Rightarrow> val list \<Rightarrow> emitter \<Rightarrow> nat list \<times> outcome" where
  "emit ap t args st =
     (let arguments = Str t # args in
      case getSubscriptionsForType t st of
        None \<Rightarrow> ([], Returned st)
      | Some a \<Rightarrow>
          (let keys = Object_keys (array_at st a) in
           case emit_loop ap a keys arguments st of
             (ds, Threw e st') \<Rightarrow> (ds, Threw e st')
           | (ds, Returned st') \<Rightarrow> (ds, Returned (st'\<lparr>currentSubscription := None\<rparr>))))"

subsection \<open>Running listener bodies\<close>

text \<open>
  One call of a listener body. \<open>Remove h\<close> is \<^verbatim>\<open>subscription.remove()\<close> on the
  handle of the subscription with identity \<open>h\<close>, which delegates to the vendor; the
  handle is undefined when no such subscription has been created.
\<close>

fun exec_cmd :: "applier \<Rightarrow> cmd \<Rightarrow> emitter \<Rightarrow> outcome" where
  "exec_cmd ap (AddListener t l c) st = Returned (snd (addListener t l c st))"
| "exec_cmd ap (Once t l c) st = Returned (snd (once t l c st))"
| "exec_cmd ap (RemoveAllListeners t) st = Returned (removeAllListeners t st)"
| "exec_cmd ap RemoveCurrentListener st = removeCurrentListener st"
| "exec_cmd ap (Remove h) st =
     (if h < length (objs st) then Returned (removeSubscription h st) else Threw TypeError st)"
| "exec_cmd ap (Emit t args) st = snd (emit ap t args st)"
| "exec_cmd ap (Throw v) st = Threw (Thrown v) st"

fun exec :: "applier \<Rightarrow> cmd list \<Rightarrow> emitter \<Rightarrow> outcome" where
  "exec ap [] st = Returned st"
| "exec ap (c # cs) st =
     (case exec_cmd ap c st of
        Threw e st' \<Rightarrow> Threw e st'
      | Returned st' \<Rightarrow> exec ap cs st')"

text \<open>
  Function application with \<open>d\<close> frames of call stack left: with none left the engine
  throws a RangeError; otherwise the call is recorded and the function runs, its own
  calls having one frame less. The wrapper of \<^verbatim>\<open>once\<close> first removes the current
  listener and then applies the original listener to the original context and the
  arguments it received.
\<close>

primrec apply_fn :: "nat \<Rightarrow> applier" where
  "apply_fn 0 = (\<lambda>f this args st. Threw RangeError st)"
| "apply_fn (Suc d) = (\<lambda>f this args st.
     (let st1 = st\<lparr>calls := calls st @ [(f, this, args)]\<rparr> in
      case f of
        Fn n body \<Rightarrow> exec (apply_fn d) body st1
      | OnceWrapper l c \<Rightarrow>
          (case removeCurrentListener st1 of
             Threw e st2 \<Rightarrow> Threw e st2
           | Returned st2 \<Rightarrow> apply_fn d l c args st2)))"

subsection \<open>Emission with the record of every dispatch\<close>









subsection \<open>Relations between states\<close>

text \<open>
  A relation between states is \<open>stable\<close> when it is reflexive and transitive and
  relates a state to the result of each primitive mutation the emitter and the vendor
  perform. \<open>ap_rel R ap\<close> says that function application relates its start and end
  states by \<open>R\<close>, whether the call returns or throws.
\<close>

definition stable :: "(emitter \<Rightarrow> emitter \<Rightarrow> bool) \<Rightarrow> bool" where
  "stable R \<longleftrightarrow>
     (\<forall>st. R st st) \<and>
     (\<forall>st1 st2 st3. R st1 st2 \<longrightarrow> R st2 st3 \<longrightarrow> R st1 st3) \<and>
     (\<forall>st c. R st (st\<lparr>currentSubscription := c\<rparr>)) \<and>
     (\<forall>st x. R st (st\<lparr>calls := calls st @ [x]\<rparr>)) \<and>
     (\<forall>st t l c. R st (snd (addListener t l c st))) \<and>
     (\<forall>st s. R st (removeSubscription s st)) \<and>
     (\<forall>st t. R st (removeAllSubscriptions t st))"

definition ap_rel :: "(emitter \<Rightarrow> emitter \<Rightarrow> bool) \<Rightarrow> applier \<Rightarrow> bool" where
  "ap_rel R ap \<longleftrightarrow> (\<forall>f this args st. R st (state_of (ap f this args st)))"

text \<open>
  How the tables may change while listeners run: nothing is ever deallocated,
  subscription objects stay as they are, a slot that exists keeps its subscription or
  becomes absent, a slot that appears holds a subscription created since, and a
  collection that has stopped being a type's current collection never becomes one again.
\<close>

definition evolves :: "emitter \<Rightarrow> emitter \<Rightarrow> bool" where
  "evolves st st' \<longleftrightarrow>
     length (objs st) \<le> length (objs st') \<and>
     (\<forall>s < length (objs st). objs st' ! s = objs st ! s) \<and>
     length (arrays st) \<le> length (arrays st') \<and>
     (\<forall>a. length (array_at st a) \<le> length (array_at st' a)) \<and>
     (\<forall>a k. k < length (array_at st a) \<longrightarrow> slot_at st' a k = slot_at st a k \<or> slot_at st' a k = None) \<and>
     (\<forall>a k s. slot_at st' a k = Some s \<longrightarrow> length (array_at st a) \<le> k \<longrightarrow> length (objs st) \<le> s) \<and>
     (\<forall>t a. subscriptionsForType st' t = Some a \<longrightarrow> a < length (arrays st) \<longrightarrow>
         subscriptionsForType st t = Some a)"

text \<open>
  Well-formed states: every current collection exists and belongs to one type, a slot
  holds an existing subscription whose key is the slot's key and which occupies no
  other collection, and the subscriptions of a type's current collection carry that type.
\<close>

definition wf :: "emitter \<Rightarrow> bool" where
  "wf st \<longleftrightarrow>
     (\<forall>t a. subscriptionsForType st t = Some a \<longrightarrow> a < length (arrays st)) \<and>
     (\<forall>t1 t2 a. subscriptionsForType st t1 = Some a \<longrightarrow> subscriptionsForType st t2 = Some a \<longrightarrow> t1 = t2) \<and>
     (\<forall>a k s. slot_at st a k = Some s \<longrightarrow> s < length (objs st) \<and> key (objs st ! s) = k) \<and>
     (\<forall>a1 k1 a2 k2 s. slot_at st a1 k1 = Some s \<longrightarrow> slot_at st a2 k2 = Some s \<longrightarrow> a1 = a2) \<and>
     (\<forall>t a k s. subscriptionsForType st t = Some a \<longrightarrow> slot_at st a k = Some s \<longrightarrow>
         eventType (objs st ! s) = t)"

text \<open>The record of calls is only ever extended.\<close>

definition calls_grow :: "emitter \<Rightarrow> emitter \<Rightarrow> bool" where
  "calls_grow st st' \<longleftrightarrow> prefix (calls st) (calls st')"

text \<open>
  A listener function makes no nested \<open>emit\<close> call of its own when its body contains
  no \<open>Emit\<close>; the wrapper of \<open>once\<close> makes none when the wrapped listener makes none.
\<close>

fun is_Emit :: "cmd \<Rightarrow> bool" where
  "is_Emit (Emit t args) = True"
| "is_Emit c = False"

fun emit_free :: "func \<Rightarrow> bool" where
  "emit_free (Fn n body) = list_all (\<lambda>c. \<not> is_Emit c) body"
| "emit_free (OnceWrapper l c) = emit_free l"






subsection \<open>Scenarios\<close>

text \<open>A listener that throws, registered alone on \<open>type1\<close> of a fresh emitter.\<close>

definition thrower :: func where
  "thrower = Fn 1 [Throw (Str ''boom'')]"

definition st_thrower :: emitter where
  "st_thrower = snd (addListener ''type1'' thrower Undefined new_emitter)"

text \<open>The state in which \<open>emit('type1', 'data')\<close> leaves it, with three frames of stack.\<close>

definition st_stale :: emitter where
  "st_stale = state_of (snd (emit (apply_fn 3) ''type1'' [Str ''data''] st_thrower))"

text \<open>The same emitter after \<open>removeAllListeners()\<close>, and with a second listener added.\<close>

definition st_cleared :: emitter where
  "st_cleared = removeAllListeners None st_thrower"

definition st_two :: emitter where
  "st_two = snd (addListener ''type1'' (Fn 2 []) Undefined st_thrower)"

text \<open>A listener registered with a context.\<close>

definition st_ctx :: emitter where
  "st_ctx = snd (addListener ''type1'' (Fn 7 []) (Ref 42) new_emitter)"

text \<open>
  Two listeners on \<open>type1\<close>, the first of which removes the second's subscription
  (\<open>st_rm\<close>) or throws (\<open>st_thr2\<close>); and a listener on each of two types (\<open>st_ab\<close>).
\<close>

definition st_rm :: emitter where
  "st_rm = snd (addListener ''type1'' (Fn 2 []) Undefined
             (snd (addListener ''type1'' (Fn 1 [Remove 1]) Undefined new_emitter)))"

definition st_ab :: emitter where
  "st_ab = snd (addListener ''type2'' (Fn 8 []) Undefined st_ctx)"

definition st_thr2 :: emitter where
  "st_thr2 = snd (addListener ''type1'' (Fn 2 []) Undefined st_thrower)"

text \<open>
  A listener that registers another listener for the same type while it runs, and the
  state after one emission; the same with a listener that throws after registering.
\<close>

definition st_adder :: emitter where
  "st_adder = snd (addListener ''type1''
      (Fn 1 [AddListener ''type1'' (Fn 2 []) Undefined]) Undefined new_emitter)"

definition st_added :: emitter where
  "st_added = state_of (snd (emit (apply_fn 3) ''type1'' [] st_adder))"

definition st_adder_thrower :: emitter where
  "st_adder_thrower = snd (addListener ''type1''
      (Fn 1 [AddListener ''type1'' (Fn 2 []) Undefined, Throw (Str ''boom'')]) Undefined new_emitter)"

definition st_added_thrown :: emitter where
  "st_added_thrown = state_of (snd (emit (apply_fn 3) ''type1'' [] st_adder_thrower))"


text \<open>A listener that emits another event, which has a listener, and then throws.\<close>

definition st_nested :: emitter where
  "st_nested = snd (addListener ''other'' (Fn 2 []) Undefined
     (snd (addListener ''type1'' (Fn 1 [Emit ''other'' [], Throw (Str ''boom'')]) Undefined
        new_emitter)))"





text \<open>
  A listener that registers another one, followed by a listener that removes the
  subscription so created; and a listener registered with \<open>once\<close> behind a listener
  that removes it.
\<close>

definition st_add_rm :: emitter where
  "st_add_rm = snd (addListener ''type1'' (Fn 2 [Remove 2]) Undefined
     (snd (addListener ''type1'' (Fn 1 [AddListener ''type1'' (Fn 3 []) Undefined]) Undefined
        new_emitter)))"

definition st_add_rm1 :: emitter where
  "st_add_rm1 = state_of (snd (emit (apply_fn 3) ''type1'' [] st_add_rm))"




section \<open>Properties\<close>

subsection \<open>Stable relations are kept by emission and by listener bodies\<close>

lemma stable_refl: "stable R \<Longrightarrow> R st st"
  by (simp add: stable_def)

lemma stable_trans: "stable R \<Longrightarrow> R st1 st2 \<Longrightarrow> R st2 st3 \<Longrightarrow> R st1 st3"
  unfolding stable_def by blast

lemma stable_current: "stable R \<Longrightarrow> R st (st\<lparr>currentSubscription := c\<rparr>)"
  by (simp add: stable_def)

lemma stable_calls: "stable R \<Longrightarrow> R st (st\<lparr>calls := calls st @ [x]\<rparr>)"
  unfolding stable_def by blast

lemma stable_addListener: "stable R \<Longrightarrow> R st (snd (addListener t l c st))"
  by (simp add: stable_def)

lemma stable_removeSubscription: "stable R \<Longrightarrow> R st (removeSubscription s st)"
  by (simp add: stable_def)

lemma stable_removeAll: "stable R \<Longrightarrow> R st (removeAllSubscriptions t st)"
  by (simp add: stable_def)

lemma ap_relD: "ap_rel R ap \<Longrightarrow> R st (state_of (ap f this args st))"
  by (simp add: ap_rel_def)

lemma rel_emitToSubscription:
  "ap_rel R ap \<Longrightarrow> R st (state_of (emitToSubscription ap s arguments st))"
  by (simp add: ap_rel_def emitToSubscription_def)

lemma rel_emit_loop:
  assumes R: "stable R" and ap: "ap_rel R ap"
  shows "R st (state_of (snd (emit_loop ap a ks arguments st)))"
proof (induction ks arbitrary: st)
  case Nil
  show ?case by (simp add: stable_refl [OF R])
next
  case (Cons k ks)
  show ?case
  proof (cases "slot_at st a k")
    case None
    then show ?thesis using Cons by simp
  next
    case (Some s)
    let ?st0 = "st\<lparr>currentSubscription := Some s\<rparr>"
    have e0: "R st (state_of (emitToSubscription ap s arguments ?st0))"
      using stable_trans [OF R stable_current [OF R] rel_emitToSubscription [OF ap]] .
    show ?thesis
    proof (cases "emitToSubscription ap s arguments ?st0")
      case (Threw e st')
      then show ?thesis using Some e0 by simp
    next
      case (Returned st')
      have "R st' (state_of (snd (emit_loop ap a ks arguments st')))"
        using Cons.IH .
      with e0 Returned have "R st (state_of (snd (emit_loop ap a ks arguments st')))"
        using stable_trans [OF R] by fastforce
      then show ?thesis using Some Returned by (auto split: prod.splits)
    qed
  qed
qed

lemma rel_emit:
  assumes R: "stable R" and ap: "ap_rel R ap"
  shows "R st (state_of (snd (emit ap t args st)))"
proof (cases "getSubscriptionsForType t st")
  case None
  then show ?thesis by (simp add: emit_def stable_refl [OF R])
next
  case (Some a)
  let ?r = "emit_loop ap a (Object_keys (array_at st a)) (Str t # args) st"
  have e: "R st (state_of (snd ?r))" using rel_emit_loop [OF R ap] .
  show ?thesis
  proof (cases ?r)
    case (Pair ds r)
    show ?thesis
    proof (cases r)
      case (Returned st')
      with Pair e have "R st st'" by simp
      then have "R st (st'\<lparr>currentSubscription := None\<rparr>)"
        using stable_trans [OF R] stable_current [OF R] by blast
      then show ?thesis using Some Pair Returned by (simp add: emit_def)
    next
      case (Threw x st')
      then show ?thesis using Some Pair e by (simp add: emit_def)
    qed
  qed
qed

lemma rel_removeCurrentListener:
  "stable R \<Longrightarrow> R st (state_of (removeCurrentListener st))"
  by (simp add: removeCurrentListener_def stable_refl stable_removeSubscription split: option.splits)

lemma rel_exec_cmd:
  assumes R: "stable R" and ap: "ap_rel R ap"
  shows "R st (state_of (exec_cmd ap c st))"
  by (cases c) (simp_all add: once_def removeAllListeners_def stable_addListener [OF R]
      stable_removeAll [OF R] rel_removeCurrentListener [OF R] stable_removeSubscription [OF R]
      stable_refl [OF R] rel_emit [OF R ap])

lemma rel_exec:
  assumes R: "stable R" and ap: "ap_rel R ap"
  shows "R st (state_of (exec ap cs st))"
proof (induction cs arbitrary: st)
  case Nil
  show ?case by (simp add: stable_refl [OF R])
next
  case (Cons c cs)
  have e: "R st (state_of (exec_cmd ap c st))" using rel_exec_cmd [OF R ap] .
  show ?case
  proof (cases "exec_cmd ap c st")
    case (Returned st')
    with e Cons.IH [of st'] show ?thesis
      using stable_trans [OF R] by fastforce
  next
    case (Threw x st')
    with e show ?thesis by simp
  qed
qed

lemma rel_apply_fn:
  assumes R: "stable R"
  shows "ap_rel R (apply_fn d)"
proof (induction d)
  case 0
  show ?case by (simp add: ap_rel_def stable_refl [OF R])
next
  case (Suc d)
  show ?case unfolding ap_rel_def
  proof (intro allI)
    fix f this args and st :: emitter
    let ?st1 = "st\<lparr>calls := calls st @ [(f, this, args)]\<rparr>"
    have e1: "R st ?st1" by (rule stable_calls [OF R])
    show "R st (state_of (apply_fn (Suc d) f this args st))"
    proof (cases f)
      case (Fn n body)
      then show ?thesis
        using stable_trans [OF R e1 rel_exec [OF R Suc, of ?st1 body]] by (simp add: Let_def)
    next
      case (OnceWrapper l c)
      show ?thesis
      proof (cases "removeCurrentListener ?st1")
        case (Returned st2)
        have "R ?st1 st2" using rel_removeCurrentListener [OF R, of ?st1] Returned by simp
        moreover have "R st2 (state_of (apply_fn d l c args st2))"
          using Suc by (simp add: ap_rel_def)
        ultimately have "R st (state_of (apply_fn d l c args st2))"
          using e1 stable_trans [OF R] by blast
        then show ?thesis using OnceWrapper Returned by (simp add: Let_def)
      next
        case (Threw x st2)
        have "R ?st1 st2" using rel_removeCurrentListener [OF R, of ?st1] Threw by simp
        then have "R st st2" using e1 stable_trans [OF R] by blast
        then show ?thesis using OnceWrapper Threw by (simp add: Let_def)
      qed
    qed
  qed
qed

lemma evolves_refl: "evolves st st"
  by (simp add: evolves_def slot_at_def)

lemma evolves_trans: "evolves st1 st2 \<Longrightarrow> evolves st2 st3 \<Longrightarrow> evolves st1 st3"
  unfolding evolves_def
  apply (intro conjI allI impI)
  apply (meson le_trans)
  apply (metis less_le_trans)
  apply (meson le_trans)
  apply (meson le_trans)
  apply (metis less_le_trans)
  apply (metis le_trans not_le option.distinct(1))
  apply (metis less_le_trans)
  done

lemma evolves_current: "evolves st (st\<lparr>currentSubscription := c\<rparr>)"
  by (simp add: evolves_def array_at_def slot_at_def)

lemma evolves_calls: "evolves st (st\<lparr>calls := c\<rparr>)"
  by (simp add: evolves_def array_at_def slot_at_def)

lemma evolves_removeAll: "evolves st (removeAllSubscriptions t st)"
  by (auto simp: evolves_def removeAllSubscriptions_def array_at_def slot_at_def split: option.splits if_splits)

lemma evolves_removeSubscription: "evolves st (removeSubscription s st)"
  by (auto simp: evolves_def removeSubscription_def array_at_def slot_at_def nth_list_update split: option.splits if_splits)

lemma evolves_addListener: "evolves st (snd (addListener t l c st))"
  by (auto simp: evolves_def addListener_def new_EmitterSubscription_def addSubscription_def Let_def
      array_at_def slot_at_def nth_list_update nth_append split: option.splits if_splits)

lemma stable_evolves: "stable evolves"
  unfolding stable_def
  using evolves_refl evolves_trans evolves_current evolves_calls evolves_removeAll
    evolves_removeSubscription evolves_addListener by blast

lemma removeSubscription_frame:
  "objs (removeSubscription s st) = objs st"
  "subscriptionsForType (removeSubscription s st) = subscriptionsForType st"
  "currentSubscription (removeSubscription s st) = currentSubscription st"
  "calls (removeSubscription s st) = calls st"
  "length (arrays (removeSubscription s st)) = length (arrays st)"
  by (simp_all add: removeSubscription_def split: option.splits)

lemma length_array_at_removeSubscription:
  "length (array_at (removeSubscription s st) a) = length (array_at st a)"
  by (simp add: removeSubscription_def array_at_def nth_list_update split: option.splits)

lemma slot_at_removeSubscription:
  "slot_at (removeSubscription s st) a k =
     (if subscriptionsForType st (eventType (objs st ! s)) = Some a \<and> k = key (objs st ! s) \<and>
         slot_at st a k = Some s
      then None else slot_at st a k)"
  by (auto simp: removeSubscription_def slot_at_def array_at_def nth_list_update split: option.splits)

lemma fst_addListener: "fst (addListener t l c st) = length (objs st)"
  by (simp add: addListener_def new_EmitterSubscription_def addSubscription_def Let_def)

lemma addListener_Some:
  "subscriptionsForType st t = Some a \<Longrightarrow> a < length (arrays st) \<Longrightarrow>
   snd (addListener t l c st) =
     st\<lparr>arrays := (arrays st)[a := arrays st ! a @ [Some (length (objs st))]],
        objs := objs st @ [\<lparr>listener = l, context' = c, eventType = t, key = length (arrays st ! a)\<rparr>]\<rparr>"
  by (simp add: addListener_def new_EmitterSubscription_def addSubscription_def Let_def array_at_def)

lemma addListener_None:
  "subscriptionsForType st t = None \<Longrightarrow>
   snd (addListener t l c st) =
     st\<lparr>arrays := arrays st @ [[Some (length (objs st))]],
        subscriptionsForType := (subscriptionsForType st)(t \<mapsto> length (arrays st)),
        objs := objs st @ [\<lparr>listener = l, context' = c, eventType = t, key = 0\<rparr>]\<rparr>"
  by (simp add: addListener_def new_EmitterSubscription_def addSubscription_def Let_def array_at_def)

lemma wf_unique: "wf st \<Longrightarrow> slot_at st a1 k1 = Some s \<Longrightarrow> slot_at st a2 k2 = Some s \<Longrightarrow> a1 = a2"
  unfolding wf_def by blast

lemma wf_bucket: "wf st \<Longrightarrow> subscriptionsForType st t = Some a \<Longrightarrow> a < length (arrays st)"
  by (simp add: wf_def)

lemma wf_inj: "wf st \<Longrightarrow> subscriptionsForType st t1 = Some a \<Longrightarrow>
    subscriptionsForType st t2 = Some a \<Longrightarrow> t1 = t2"
  unfolding wf_def by blast

lemma wf_slot: "wf st \<Longrightarrow> slot_at st a k = Some s \<Longrightarrow> s < length (objs st) \<and> key (objs st ! s) = k"
  unfolding wf_def by blast

lemma wf_type: "wf st \<Longrightarrow> subscriptionsForType st t = Some a \<Longrightarrow> slot_at st a k = Some s \<Longrightarrow>
    eventType (objs st ! s) = t"
  unfolding wf_def by blast

lemma wf_new: "wf new_emitter"
  by (simp add: wf_def new_emitter_def slot_at_def array_at_def)

lemma wf_current: "wf (st\<lparr>currentSubscription := c\<rparr>) = wf st"
  by (simp add: wf_def array_at_def slot_at_def)

lemma wf_calls: "wf (st\<lparr>calls := c\<rparr>) = wf st"
  by (simp add: wf_def array_at_def slot_at_def)

lemma slot_at_removeAll: "slot_at (removeAllSubscriptions t st) a k = slot_at st a k"
  by (cases t) (simp_all add: removeAllSubscriptions_def slot_at_def array_at_def)

lemma removeAll_frame:
  "objs (removeAllSubscriptions t st) = objs st"
  "arrays (removeAllSubscriptions t st) = arrays st"
  "currentSubscription (removeAllSubscriptions t st) = currentSubscription st"
  "calls (removeAllSubscriptions t st) = calls st"
  by (cases t, simp_all add: removeAllSubscriptions_def)+

lemma bucket_removeAll:
  "subscriptionsForType (removeAllSubscriptions t st) ty = Some a \<Longrightarrow> subscriptionsForType st ty = Some a"
  by (cases t) (simp_all add: removeAllSubscriptions_def split: if_splits)

lemma wf_removeAll:
  assumes "wf st" shows "wf (removeAllSubscriptions t st)"
  unfolding wf_def
proof (intro conjI allI impI)
  fix ty a assume "subscriptionsForType (removeAllSubscriptions t st) ty = Some a"
  then have "subscriptionsForType st ty = Some a" by (rule bucket_removeAll)
  then have "a < length (arrays st)" by (rule wf_bucket [OF assms])
  then show "a < length (arrays (removeAllSubscriptions t st))"
    by (simp add: removeAll_frame)
next
  fix t1 t2 a
  assume "subscriptionsForType (removeAllSubscriptions t st) t1 = Some a"
    "subscriptionsForType (removeAllSubscriptions t st) t2 = Some a"
  then have "subscriptionsForType st t1 = Some a" "subscriptionsForType st t2 = Some a"
    by (blast dest: bucket_removeAll)+
  then show "t1 = t2" by (rule wf_inj [OF assms])
next
  fix a k s assume "slot_at (removeAllSubscriptions t st) a k = Some s"
  then have "slot_at st a k = Some s" by (simp add: slot_at_removeAll)
  from wf_slot [OF assms this]
  show "s < length (objs (removeAllSubscriptions t st))"
    "key (objs (removeAllSubscriptions t st) ! s) = k"
    by (simp_all add: removeAll_frame)
next
  fix a1 k1 a2 k2 s
  assume "slot_at (removeAllSubscriptions t st) a1 k1 = Some s"
    "slot_at (removeAllSubscriptions t st) a2 k2 = Some s"
  then have "slot_at st a1 k1 = Some s" "slot_at st a2 k2 = Some s"
    by (simp_all add: slot_at_removeAll)
  then show "a1 = a2" by (rule wf_unique [OF assms])
next
  fix ty a k s
  assume "subscriptionsForType (removeAllSubscriptions t st) ty = Some a"
    "slot_at (removeAllSubscriptions t st) a k = Some s"
  then have "subscriptionsForType st ty = Some a" "slot_at st a k = Some s"
    by (blast dest: bucket_removeAll, simp add: slot_at_removeAll)
  from wf_type [OF assms this]
  show "eventType (objs (removeAllSubscriptions t st) ! s) = ty"
    by (simp add: removeAll_frame)
qed

lemma wf_removeSubscription:
  assumes "wf st" shows "wf (removeSubscription s st)"
  unfolding wf_def removeSubscription_frame
proof (intro conjI allI impI)
  fix ty a assume "subscriptionsForType st ty = Some a"
  then show "a < length (arrays st)" by (rule wf_bucket [OF assms])
next
  fix t1 t2 a
  assume "subscriptionsForType st t1 = Some a" "subscriptionsForType st t2 = Some a"
  then show "t1 = t2" by (rule wf_inj [OF assms])
next
  fix a k s' assume "slot_at (removeSubscription s st) a k = Some s'"
  then have "slot_at st a k = Some s'" by (simp add: slot_at_removeSubscription split: if_splits)
  from wf_slot [OF assms this]
  show "s' < length (objs st)" "key (objs st ! s') = k"
    by simp_all
next
  fix a1 k1 a2 k2 s'
  assume "slot_at (removeSubscription s st) a1 k1 = Some s'"
    "slot_at (removeSubscription s st) a2 k2 = Some s'"
  then have "slot_at st a1 k1 = Some s'" "slot_at st a2 k2 = Some s'"
    by (simp_all add: slot_at_removeSubscription split: if_splits)
  then show "a1 = a2" by (rule wf_unique [OF assms])
next
  fix ty a k s'
  assume b: "subscriptionsForType st ty = Some a" and "slot_at (removeSubscription s st) a k = Some s'"
  then have "slot_at st a k = Some s'" by (simp add: slot_at_removeSubscription split: if_splits)
  from wf_type [OF assms b this]
  show "eventType (objs st ! s') = ty" .
qed

lemma wf_addListener:
  assumes "wf st" shows "wf (snd (addListener t l c st))"
proof (cases "subscriptionsForType st t")
  case None
  let ?st' = "st\<lparr>arrays := arrays st @ [[Some (length (objs st))]],
        subscriptionsForType := (subscriptionsForType st)(t \<mapsto> length (arrays st)),
        objs := objs st @ [\<lparr>listener = l, context' = c, eventType = t, key = 0\<rparr>]\<rparr>"
  have sl: "slot_at ?st' a k = (if a = length (arrays st) \<and> k = 0 then Some (length (objs st)) else slot_at st a k)" for a k
    by (simp add: slot_at_def array_at_def nth_append)
  have "wf ?st'" unfolding wf_def
  proof (intro conjI allI impI)
    fix ty a assume "subscriptionsForType ?st' ty = Some a"
    then show "a < length (arrays ?st')"
      using wf_bucket [OF assms, of ty a] by (simp split: if_splits)
  next
    fix t1 t2 a
    assume "subscriptionsForType ?st' t1 = Some a" "subscriptionsForType ?st' t2 = Some a"
    then show "t1 = t2"
      using wf_bucket [OF assms, of t1 a] wf_bucket [OF assms, of t2 a] wf_inj [OF assms, of t1 a t2]
      by (simp split: if_splits)
  next
    fix a k s assume "slot_at ?st' a k = Some s"
    then show "s < length (objs ?st')" "key (objs ?st' ! s) = k"
      using wf_slot [OF assms, of a k s] by (auto simp: sl nth_append split: if_splits)
  next
    fix a1 k1 a2 k2 s
    assume "slot_at ?st' a1 k1 = Some s" "slot_at ?st' a2 k2 = Some s"
    then show "a1 = a2"
      using wf_slot [OF assms, of a1 k1 s] wf_slot [OF assms, of a2 k2 s] wf_unique [OF assms, of a1 k1 s a2 k2]
      by (auto simp: sl split: if_splits)
  next
    fix ty a k s
    assume "subscriptionsForType ?st' ty = Some a" "slot_at ?st' a k = Some s"
    then show "eventType (objs ?st' ! s) = ty"
      using wf_bucket [OF assms, of ty a] wf_slot [OF assms, of a k s] wf_type [OF assms, of ty a k s]
      by (auto simp: sl nth_append array_at_def slot_at_def split: if_splits)
  qed
  then show ?thesis using None by (simp add: addListener_None)
next
  case (Some b)
  have b: "b < length (arrays st)" using wf_bucket [OF assms Some] .
  let ?st' = "st\<lparr>arrays := (arrays st)[b := arrays st ! b @ [Some (length (objs st))]],
        objs := objs st @ [\<lparr>listener = l, context' = c, eventType = t, key = length (arrays st ! b)\<rparr>]\<rparr>"
  have sl: "slot_at ?st' a k = (if a = b \<and> k = length (arrays st ! b) then Some (length (objs st)) else slot_at st a k)" for a k
    using b by (auto simp: slot_at_def array_at_def nth_append nth_list_update)
  have "wf ?st'" unfolding wf_def
  proof (intro conjI allI impI)
    fix ty a assume "subscriptionsForType ?st' ty = Some a"
    then show "a < length (arrays ?st')"
      using wf_bucket [OF assms, of ty a] by simp
  next
    fix t1 t2 a
    assume "subscriptionsForType ?st' t1 = Some a" "subscriptionsForType ?st' t2 = Some a"
    then show "t1 = t2"
      using wf_inj [OF assms, of t1 a t2] by simp
  next
    fix a k s assume "slot_at ?st' a k = Some s"
    then show "s < length (objs ?st')" "key (objs ?st' ! s) = k"
      using wf_slot [OF assms, of a k s] by (auto simp: sl nth_append split: if_splits)
  next
    fix a1 k1 a2 k2 s
    assume "slot_at ?st' a1 k1 = Some s" "slot_at ?st' a2 k2 = Some s"
    then show "a1 = a2"
      using wf_slot [OF assms, of a1 k1 s] wf_slot [OF assms, of a2 k2 s] wf_unique [OF assms, of a1 k1 s a2 k2]
      by (auto simp: sl split: if_splits)
  next
    fix ty a k s
    assume "subscriptionsForType ?st' ty = Some a" "slot_at ?st' a k = Some s"
    then show "eventType (objs ?st' ! s) = ty"
      using wf_inj [OF assms Some, of ty] wf_slot [OF assms, of a k s] wf_type [OF assms, of ty a k s]
      by (auto simp: sl nth_append split: if_splits)
  qed
  then show ?thesis using Some b by (simp add: addListener_Some)
qed

lemma stable_wf: "stable (\<lambda>st st'. wf st \<longrightarrow> wf st')"
  unfolding stable_def
  by (simp add: wf_current wf_calls wf_addListener wf_removeSubscription wf_removeAll)

lemma wf_apply_fn: "wf st \<Longrightarrow> wf (state_of (apply_fn d f this args st))"
  using rel_apply_fn [OF stable_wf, of d] by (simp add: ap_rel_def)

lemma wf_emit: "wf st \<Longrightarrow> wf (state_of (snd (emit (apply_fn d) t args st)))"
  using rel_emit [OF stable_wf rel_apply_fn [OF stable_wf], of st d t args] by simp

lemma evolves_emit: "evolves st (state_of (snd (emit (apply_fn d) t args st)))"
  using rel_emit [OF stable_evolves rel_apply_fn [OF stable_evolves]] .

subsection \<open>What \<open>listeners\<close> returns\<close>

lemma filter_true_simps:
  "filter_true [] = []"
  "filter_true (None # xs) = filter_true xs"
  "filter_true (Some s # xs) = s # filter_true xs"
  by (simp_all add: filter_true_def)

lemma filter_true_append: "filter_true (xs @ ys) = filter_true xs @ filter_true ys"
proof (induction xs)
  case Nil
  show ?case by (simp add: filter_true_simps)
next
  case (Cons x xs)
  then show ?case by (cases x) (simp_all add: filter_true_simps)
qed

lemma in_filter_true: "s \<in> set (filter_true xs) \<longleftrightarrow> Some s \<in> set xs"
proof (induction xs)
  case Nil
  show ?case by (simp add: filter_true_simps)
next
  case (Cons x xs)
  then show ?case by (cases x) (auto simp: filter_true_simps)
qed

lemma set_filter_true: "set (filter_true xs) = {s. \<exists>k < length xs. xs ! k = Some s}"
proof -
  have "s \<in> set (filter_true xs) \<longleftrightarrow> (\<exists>k < length xs. xs ! k = Some s)" for s
    unfolding in_filter_true by (simp add: in_set_conv_nth)
  then show ?thesis by blast
qed

lemma filter_true_remove:
  "k < length xs \<Longrightarrow> xs ! k = Some s \<Longrightarrow> (\<forall>j < length xs. xs ! j = Some s \<longrightarrow> j = k) \<Longrightarrow>
   filter_true (xs[k := None]) = filter (\<lambda>x. x \<noteq> s) (filter_true xs)"
proof (induction xs arbitrary: k)
  case Nil
  then show ?case by simp
next
  case (Cons x xs)
  show ?case
  proof (cases k)
    case 0
    have "s \<notin> set (filter_true xs)"
    proof
      assume "s \<in> set (filter_true xs)"
      then obtain j where "j < length xs" "xs ! j = Some s" by (auto simp: set_filter_true)
      then have "Suc j < length (x # xs)" "(x # xs) ! Suc j = Some s" by simp_all
      with Cons.prems(3) have "Suc j = k" by blast
      with 0 show False by simp
    qed
    then have "filter (\<lambda>x. x \<noteq> s) (filter_true xs) = filter_true xs"
      by (auto simp: filter_id_conv)
    with 0 Cons.prems show ?thesis by (simp add: filter_true_simps)
  next
    case (Suc k')
    have k': "k' < length xs" "xs ! k' = Some s" using Suc Cons.prems by simp_all
    have u: "\<forall>j < length xs. xs ! j = Some s \<longrightarrow> j = k'"
    proof (intro allI impI)
      fix j assume "j < length xs" "xs ! j = Some s"
      then have "Suc j < length (x # xs)" "(x # xs) ! Suc j = Some s" by simp_all
      with Cons.prems(3) have "Suc j = k" by blast
      with Suc show "j = k'" by simp
    qed
    have x: "x \<noteq> Some s"
    proof
      assume "x = Some s"
      then have "0 < length (x # xs)" "(x # xs) ! 0 = Some s" by simp_all
      with Cons.prems(3) have "0 = k" by blast
      with Suc show False by simp
    qed
    have IH: "filter_true (xs[k' := None]) = filter (\<lambda>x. x \<noteq> s) (filter_true xs)"
      using Cons.IH [OF k' u] .
    show ?thesis
    proof (cases x)
      case None
      then show ?thesis using Suc IH by (simp add: filter_true_simps)
    next
      case (Some y)
      then show ?thesis using Suc IH x by (simp add: filter_true_simps)
    qed
  qed
qed

lemma listeners_unregistered: "getSubscriptionsForType t st = None \<Longrightarrow> listeners t st = []"
  by (simp add: listeners_def)

lemma in_array_at:
  "s \<in> set (filter_true (array_at st a)) \<longleftrightarrow> (\<exists>k. slot_at st a k = Some s)"
proof
  assume "s \<in> set (filter_true (array_at st a))"
  then obtain k where "k < length (array_at st a)" "array_at st a ! k = Some s"
    by (auto simp: set_filter_true)
  then have "slot_at st a k = Some s" by (simp add: slot_at_def)
  then show "\<exists>k. slot_at st a k = Some s" ..
next
  assume "\<exists>k. slot_at st a k = Some s"
  then obtain k where "slot_at st a k = Some s" ..
  then have "k < length (array_at st a) \<and> array_at st a ! k = Some s"
    by (simp add: slot_at_def split: if_splits)
  then show "s \<in> set (filter_true (array_at st a))"
    unfolding set_filter_true by blast
qed

lemma in_listeners:
  "s \<in> set (listeners t st) \<longleftrightarrow>
     (\<exists>a k. subscriptionsForType st t = Some a \<and> slot_at st a k = Some s)"
proof (cases "subscriptionsForType st t")
  case None
  then show ?thesis by (simp add: listeners_def getSubscriptionsForType_def)
next
  case (Some a)
  then show ?thesis by (simp add: listeners_def getSubscriptionsForType_def in_array_at)
qed

lemma listeners_addListener_same:
  assumes "wf st"
  shows "listeners t (snd (addListener t l c st)) = listeners t st @ [fst (addListener t l c st)]"
proof (cases "subscriptionsForType st t")
  case None
  then show ?thesis
    by (simp add: addListener_None fst_addListener listeners_def getSubscriptionsForType_def
        array_at_def filter_true_simps)
next
  case (Some a)
  have a: "a < length (arrays st)" using wf_bucket [OF assms Some] .
  show ?thesis using Some a
    by (simp add: addListener_Some fst_addListener listeners_def getSubscriptionsForType_def
        array_at_def filter_true_append filter_true_simps)
qed

lemma listeners_addListener_other:
  assumes "wf st" and "t' \<noteq> t"
  shows "listeners t' (snd (addListener t l c st)) = listeners t' st"
proof (cases "subscriptionsForType st t")
  case None
  show ?thesis
  proof (cases "subscriptionsForType st t'")
    case None
    then show ?thesis using \<open>subscriptionsForType st t = None\<close> assms(2)
      by (simp add: addListener_None listeners_def getSubscriptionsForType_def)
  next
    case (Some b)
    have "b < length (arrays st)" using wf_bucket [OF assms(1) Some] .
    then show ?thesis using \<open>subscriptionsForType st t = None\<close> assms(2) Some
      by (simp add: addListener_None listeners_def getSubscriptionsForType_def array_at_def nth_append)
  qed
next
  case (Some a)
  have a: "a < length (arrays st)" using wf_bucket [OF assms(1) Some] .
  show ?thesis
  proof (cases "subscriptionsForType st t'")
    case None
    then show ?thesis using Some a
      by (simp add: addListener_Some listeners_def getSubscriptionsForType_def)
  next
    case b: (Some b)
    have "b \<noteq> a" using wf_inj [OF assms(1) b, of t] Some assms(2) by auto
    then show ?thesis using Some a b
      by (simp add: addListener_Some listeners_def getSubscriptionsForType_def array_at_def)
  qed
qed

lemma listeners_removeSubscription:
  assumes "wf st"
  shows "listeners t (removeSubscription s st) = filter (\<lambda>x. x \<noteq> s) (listeners t st)"
proof (cases "s \<in> set (listeners t st)")
  case False
  have "listeners t (removeSubscription s st) = listeners t st"
  proof (cases "subscriptionsForType st (eventType (objs st ! s))")
    case None
    then show ?thesis by (simp add: removeSubscription_def)
  next
    case (Some b)
    show ?thesis
    proof (cases "slot_at st b (key (objs st ! s)) = Some s")
      case no: False
      then show ?thesis using Some by (simp add: removeSubscription_def)
    next
      case True
      have "subscriptionsForType st t \<noteq> Some b"
        using False True by (auto simp: in_listeners)
      then show ?thesis using Some True wf_bucket [OF assms Some]
        by (auto simp: removeSubscription_def listeners_def getSubscriptionsForType_def
            array_at_def split: option.splits)
    qed
  qed
  moreover have "filter (\<lambda>x. x \<noteq> s) (listeners t st) = listeners t st"
    using False by (auto simp: filter_id_conv)
  ultimately show ?thesis by simp
next
  case True
  then obtain a k where a: "subscriptionsForType st t = Some a" and k: "slot_at st a k = Some s"
    by (auto simp: in_listeners)
  have key: "key (objs st ! s) = k" using wf_slot [OF assms k] by simp
  have ty: "eventType (objs st ! s) = t" using wf_type [OF assms a k] .
  have al: "a < length (arrays st)" using wf_bucket [OF assms a] .
  have kl: "k < length (arrays st ! a)" "arrays st ! a ! k = Some s"
    using k al by (simp_all add: slot_at_def array_at_def split: if_splits)
  have u: "\<forall>j < length (arrays st ! a). arrays st ! a ! j = Some s \<longrightarrow> j = k"
  proof (intro allI impI)
    fix j assume "j < length (arrays st ! a)" "arrays st ! a ! j = Some s"
    then have "slot_at st a j = Some s" using al by (simp add: slot_at_def array_at_def)
    from wf_slot [OF assms this] key show "j = k" by simp
  qed
  have "removeSubscription s st = st\<lparr>arrays := (arrays st)[a := (arrays st ! a)[k := None]]\<rparr>"
    using a k key ty al by (simp add: removeSubscription_def array_at_def)
  then show ?thesis using a al filter_true_remove [OF kl u]
    by (simp add: listeners_def getSubscriptionsForType_def array_at_def)
qed

lemma listeners_removeAllListeners:
  "listeners t (removeAllListeners None st) = []"
  "listeners t (removeAllListeners (Some t) st) = []"
  "t' \<noteq> t \<Longrightarrow> listeners t' (removeAllListeners (Some t) st) = listeners t' st"
  by (simp_all add: listeners_def removeAllListeners_def removeAllSubscriptions_def
      getSubscriptionsForType_def array_at_def split: option.splits)

lemma removeSubscription_twice:
  "removeSubscription s (removeSubscription s st) = removeSubscription s st"
proof -
  let ?st = "removeSubscription s st"
  show ?thesis
  proof (cases "subscriptionsForType ?st (eventType (objs ?st ! s))")
    case None
    then show ?thesis by (simp add: removeSubscription_def [of s ?st])
  next
    case (Some a)
    then have "subscriptionsForType st (eventType (objs st ! s)) = Some a"
      by (simp add: removeSubscription_frame)
    then have "slot_at ?st a (key (objs st ! s)) \<noteq> Some s"
      by (simp add: slot_at_removeSubscription)
    then show ?thesis using Some
      by (simp add: removeSubscription_def [of s ?st] removeSubscription_frame)
  qed
qed

subsection \<open>The record of calls, and facts about snapshots\<close>

lemma calls_addListener: "calls (snd (addListener t l c st)) = calls st"
  by (simp add: addListener_def new_EmitterSubscription_def addSubscription_def Let_def
      split: option.splits)

lemma stable_calls_grow: "stable calls_grow"
  unfolding stable_def calls_grow_def
  by (auto simp: calls_addListener removeSubscription_frame removeAll_frame intro: prefix_order.trans)

lemma calls_grow_apply_fn: "calls_grow st (state_of (apply_fn d f this args st))"
  using rel_apply_fn [OF stable_calls_grow, of d] by (simp add: ap_rel_def)

lemma calls_grow_emit_loop:
  "calls_grow st (state_of (snd (emit_loop (apply_fn d) a ks arguments st)))"
  using rel_emit_loop [OF stable_calls_grow rel_apply_fn [OF stable_calls_grow]] .

lemma calls_grow_exec: "calls_grow st (state_of (exec (apply_fn d) cs st))"
  using rel_exec [OF stable_calls_grow rel_apply_fn [OF stable_calls_grow]] .

lemma calls_growD: "calls_grow st st' \<Longrightarrow> x \<in> set (calls st) \<Longrightarrow> x \<in> set (calls st')"
  unfolding calls_grow_def using set_mono_prefix by blast

lemma apply_fn_records:
  "(f, this, args) \<in> set (calls (state_of (apply_fn (Suc d) f this args st)))"
proof -
  let ?st1 = "st\<lparr>calls := calls st @ [(f, this, args)]\<rparr>"
  have in1: "(f, this, args) \<in> set (calls ?st1)" by simp
  show ?thesis
  proof (cases f)
    case (Fn n body)
    have "calls_grow ?st1 (state_of (exec (apply_fn d) body ?st1))" by (rule calls_grow_exec)
    from calls_growD [OF this in1] show ?thesis using Fn by (simp add: Let_def)
  next
    case (OnceWrapper l c)
    show ?thesis
    proof (cases "removeCurrentListener ?st1")
      case (Threw e st2)
      then have "calls st2 = calls ?st1"
        by (auto simp: removeCurrentListener_def split: option.splits)
      then show ?thesis using OnceWrapper Threw by (simp add: Let_def)
    next
      case (Returned st2)
      then have "calls st2 = calls ?st1"
        by (auto simp: removeCurrentListener_def removeSubscription_frame split: option.splits)
      then have "(f, this, args) \<in> set (calls st2)" by simp
      from calls_growD [OF calls_grow_apply_fn this]
      show ?thesis using OnceWrapper Returned by (simp add: Let_def)
    qed
  qed
qed

lemma evolves_slot:
  "evolves st st' \<Longrightarrow> k < length (array_at st a) \<Longrightarrow> slot_at st' a k = Some s \<Longrightarrow>
   slot_at st a k = Some s"
  unfolding evolves_def by (metis option.distinct(1))

lemma evolves_objs: "evolves st st' \<Longrightarrow> s < length (objs st) \<Longrightarrow> objs st' ! s = objs st ! s"
  unfolding evolves_def by blast

lemma evolves_apply_fn: "evolves st (state_of (apply_fn d f this args st))"
  using rel_apply_fn [OF stable_evolves, of d] by (simp add: ap_rel_def)

lemma Object_keys_less: "k \<in> set (Object_keys xs) \<Longrightarrow> k < length xs"
  by (simp add: Object_keys_def)

lemma distinct_Object_keys: "distinct (Object_keys xs)"
  by (simp add: Object_keys_def)

lemma emit_loop_calls:
  assumes "wf st0"
  shows "evolves st0 st \<Longrightarrow> \<forall>k\<in>set ks. k < length (array_at st0 a) \<Longrightarrow>
    emit_loop (apply_fn (Suc d)) a ks (Str t # args) st = (ds, r) \<Longrightarrow>
    \<forall>s\<in>set ds. (listener (objs st0 ! s), context' (objs st0 ! s), args) \<in> set (calls (state_of r))"
proof (induction ks arbitrary: st ds r)
  case Nil
  then show ?case by simp
next
  case (Cons k ks)
  show ?case
  proof (cases "slot_at st a k")
    case None
    then have "emit_loop (apply_fn (Suc d)) a ks (Str t # args) st = (ds, r)"
      using Cons.prems(3) by simp
    from Cons.IH [OF Cons.prems(1) _ this] Cons.prems(2) show ?thesis by simp
  next
    case (Some s)
    let ?st1 = "st\<lparr>currentSubscription := Some s\<rparr>"
    let ?f = "listener (objs st0 ! s)" and ?c = "context' (objs st0 ! s)"
    have k: "k < length (array_at st0 a)" using Cons.prems(2) by simp
    have s0: "slot_at st0 a k = Some s" using evolves_slot [OF Cons.prems(1) k Some] .
    have sl: "s < length (objs st0)" using wf_slot [OF assms s0] by simp
    have o: "objs st ! s = objs st0 ! s" using evolves_objs [OF Cons.prems(1) sl] .
    have call: "emitToSubscription (apply_fn (Suc d)) s (Str t # args) ?st1
        = apply_fn (Suc d) ?f ?c args ?st1"
      using o by (simp add: emitToSubscription_def)
    have rec: "(?f, ?c, args) \<in> set (calls (state_of (apply_fn (Suc d) ?f ?c args ?st1)))"
      by (rule apply_fn_records)
    have ev: "evolves st0 (state_of (apply_fn (Suc d) ?f ?c args ?st1))"
      using evolves_trans [OF Cons.prems(1) evolves_trans [OF evolves_current evolves_apply_fn]] .
    show ?thesis
    proof (cases "apply_fn (Suc d) ?f ?c args ?st1")
      case (Threw e st2)
      then have "ds = [s]" "r = Threw e st2"
        using Cons.prems(3) Some call by simp_all
      then show ?thesis using rec Threw by simp
    next
      case (Returned st2)
      obtain ds' r' where l: "emit_loop (apply_fn (Suc d)) a ks (Str t # args) st2 = (ds', r')"
        by (cases "emit_loop (apply_fn (Suc d)) a ks (Str t # args) st2")
      then have dr: "ds = s # ds'" "r = r'"
        using Cons.prems(3) Some call Returned by simp_all
      have ev2: "evolves st0 st2" using ev Returned by simp
      have IH: "\<forall>s\<in>set ds'. (listener (objs st0 ! s), context' (objs st0 ! s), args)
          \<in> set (calls (state_of r'))"
        using Cons.IH [OF ev2 _ l] Cons.prems(2) by simp
      have "calls_grow st2 (state_of r')"
        using calls_grow_emit_loop [of st2 "Suc d" a ks "Str t # args"] l by simp
      moreover have "(?f, ?c, args) \<in> set (calls st2)" using rec Returned by simp
      ultimately have "(?f, ?c, args) \<in> set (calls (state_of r'))" by (rule calls_growD)
      then show ?thesis using IH dr by simp
    qed
  qed
qed

subsection \<open>What one emission cycle dispatches to\<close>

lemma evolves_length: "evolves st st' \<Longrightarrow> k < length (array_at st a) \<Longrightarrow> k < length (array_at st' a)"
  unfolding evolves_def by (meson less_le_trans)


lemma evolves_fresh:
  "evolves st st' \<Longrightarrow> slot_at st' a k = Some s \<Longrightarrow> s < length (objs st) \<Longrightarrow>
   slot_at st a k = Some s"
proof -
  assume e: "evolves st st'" and s: "slot_at st' a k = Some s" and l: "s < length (objs st)"
  have "k < length (array_at st a)"
  proof (rule ccontr)
    assume "\<not> k < length (array_at st a)"
    then have "length (array_at st a) \<le> k" by simp
    with e s have "length (objs st) \<le> s" unfolding evolves_def by blast
    with l show False by simp
  qed
  from evolves_slot [OF e this s] show ?thesis .
qed

lemma evolves_emit_loop: "evolves st (state_of (snd (emit_loop (apply_fn d) a ks arguments st)))"
  using rel_emit_loop [OF stable_evolves rel_apply_fn [OF stable_evolves]] .

lemma wf_emit_loop: "wf st \<Longrightarrow> wf (state_of (snd (emit_loop (apply_fn d) a ks arguments st)))"
  using rel_emit_loop [OF stable_wf rel_apply_fn [OF stable_wf], of st d a ks arguments] by simp

lemma evolves_dispatch:
  "evolves st (state_of (emitToSubscription (apply_fn d) s arguments (st\<lparr>currentSubscription := Some s\<rparr>)))"
  unfolding emitToSubscription_def Let_def
  using evolves_trans [OF evolves_current evolves_apply_fn] .

lemma wf_dispatch:
  "wf st \<Longrightarrow> wf (state_of (emitToSubscription (apply_fn d) s arguments (st\<lparr>currentSubscription := Some s\<rparr>)))"
  unfolding emitToSubscription_def Let_def
  using wf_apply_fn [of "st\<lparr>currentSubscription := Some s\<rparr>"] by (simp add: wf_current)

text \<open>Every subscription the loop dispatches to is in its slot when the loop starts.\<close>

lemma emit_loop_dispatched_live:
  "\<forall>k\<in>set ks. k < length (array_at st a) \<Longrightarrow>
   emit_loop (apply_fn d) a ks arguments st = (ds, r) \<Longrightarrow>
   \<forall>s\<in>set ds. \<exists>k\<in>set ks. slot_at st a k = Some s"
proof (induction ks arbitrary: st ds r)
  case Nil
  then show ?case by simp
next
  case (Cons k ks)
  show ?case
  proof (cases "slot_at st a k")
    case None
    then have "emit_loop (apply_fn d) a ks arguments st = (ds, r)" using Cons.prems(2) by simp
    from Cons.IH [OF _ this] Cons.prems(1) show ?thesis by simp
  next
    case (Some s)
    let ?o = "emitToSubscription (apply_fn d) s arguments (st\<lparr>currentSubscription := Some s\<rparr>)"
    show ?thesis
    proof (cases ?o)
      case (Threw e st2)
      then have "ds = [s]" using Cons.prems(2) Some by simp
      then show ?thesis using Some by simp
    next
      case (Returned st2)
      obtain ds' r' where l: "emit_loop (apply_fn d) a ks arguments st2 = (ds', r')"
        by (cases "emit_loop (apply_fn d) a ks arguments st2")
      have dr: "ds = s # ds'" using Cons.prems(2) Some Returned l by simp
      have ev: "evolves st st2" using evolves_dispatch [of st d s arguments] Returned by simp
      have ks2: "\<forall>k\<in>set ks. k < length (array_at st2 a)"
        using Cons.prems(1) evolves_length [OF ev] by simp
      have IH: "\<forall>s\<in>set ds'. \<exists>k\<in>set ks. slot_at st2 a k = Some s"
        using Cons.IH [OF ks2 l] .
      have "\<exists>k\<in>set ks. slot_at st a k = Some s'" if "s' \<in> set ds'" for s'
      proof -
        from IH that obtain k' where k': "k' \<in> set ks" "slot_at st2 a k' = Some s'" by blast
        have "k' < length (array_at st a)" using Cons.prems(1) k'(1) by simp
        from evolves_slot [OF ev this k'(2)] k'(1) show ?thesis by blast
      qed
      then show ?thesis using dr Some by auto
    qed
  qed
qed

text \<open>No subscription is dispatched to twice by one loop.\<close>

lemma emit_loop_distinct:
  "wf st \<Longrightarrow> distinct ks \<Longrightarrow> \<forall>k\<in>set ks. k < length (array_at st a) \<Longrightarrow>
   emit_loop (apply_fn d) a ks arguments st = (ds, r) \<Longrightarrow> distinct ds"
proof (induction ks arbitrary: st ds r)
  case Nil
  then show ?case by simp
next
  case (Cons k ks)
  show ?case
  proof (cases "slot_at st a k")
    case None
    then have "emit_loop (apply_fn d) a ks arguments st = (ds, r)" using Cons.prems(4) by simp
    from Cons.IH [OF Cons.prems(1) _ _ this] Cons.prems(2,3) show ?thesis by simp
  next
    case (Some s)
    let ?o = "emitToSubscription (apply_fn d) s arguments (st\<lparr>currentSubscription := Some s\<rparr>)"
    show ?thesis
    proof (cases ?o)
      case (Threw e st2)
      then have "ds = [s]" using Cons.prems(4) Some by simp
      then show ?thesis by simp
    next
      case (Returned st2)
      obtain ds' r' where l: "emit_loop (apply_fn d) a ks arguments st2 = (ds', r')"
        by (cases "emit_loop (apply_fn d) a ks arguments st2")
      have dr: "ds = s # ds'" using Cons.prems(4) Some Returned l by simp
      have ev: "evolves st st2" using evolves_dispatch [of st d s arguments] Returned by simp
      have w2: "wf st2" using wf_dispatch [OF Cons.prems(1), of d s arguments] Returned by simp
      have ks2: "\<forall>k\<in>set ks. k < length (array_at st2 a)"
        using Cons.prems(3) evolves_length [OF ev] by simp
      have d': "distinct ds'" using Cons.IH [OF w2 _ ks2 l] Cons.prems(2) by simp
      have "s \<notin> set ds'"
      proof
        assume "s \<in> set ds'"
        with emit_loop_dispatched_live [OF ks2 l]
        obtain k' where k': "k' \<in> set ks" "slot_at st2 a k' = Some s" by blast
        have "k' < length (array_at st a)" using Cons.prems(3) k'(1) by simp
        from evolves_slot [OF ev this k'(2)] have "slot_at st a k' = Some s" .
        from wf_slot [OF Cons.prems(1) this] wf_slot [OF Cons.prems(1) Some] have "k' = k" by simp
        with k'(1) Cons.prems(2) show False by simp
      qed
      with d' dr show ?thesis by simp
    qed
  qed
qed

text \<open>When the loop returns, a subscription still in its slot has been dispatched to.\<close>

lemma emit_loop_live_dispatched:
  "\<forall>k\<in>set ks. k < length (array_at st a) \<Longrightarrow>
   emit_loop (apply_fn d) a ks arguments st = (ds, Returned st') \<Longrightarrow>
   k \<in> set ks \<Longrightarrow> slot_at st' a k = Some s \<Longrightarrow> s \<in> set ds"
proof (induction ks arbitrary: st ds)
  case Nil
  then show ?case by simp
next
  case (Cons k0 ks)
  have ev': "evolves st st'"
    using evolves_emit_loop [of st d a "k0 # ks" arguments] Cons.prems(2) by simp
  have kl: "k < length (array_at st a)" using Cons.prems(1,3) by blast
  have s0: "slot_at st a k = Some s" using evolves_slot [OF ev' kl Cons.prems(4)] .
  show ?case
  proof (cases "slot_at st a k0")
    case None
    then have l: "emit_loop (apply_fn d) a ks arguments st = (ds, Returned st')"
      using Cons.prems(2) by simp
    have "k \<noteq> k0" using None s0 by auto
    then have "k \<in> set ks" using Cons.prems(3) by simp
    from Cons.IH [OF _ l this Cons.prems(4)] Cons.prems(1) show ?thesis by simp
  next
    case (Some s1)
    let ?o = "emitToSubscription (apply_fn d) s1 arguments (st\<lparr>currentSubscription := Some s1\<rparr>)"
    show ?thesis
    proof (cases ?o)
      case (Threw e st2)
      then show ?thesis using Cons.prems(2) Some by simp
    next
      case (Returned st2)
      obtain ds' r' where l: "emit_loop (apply_fn d) a ks arguments st2 = (ds', r')"
        by (cases "emit_loop (apply_fn d) a ks arguments st2")
      have dr: "ds = s1 # ds'" "r' = Returned st'" using Cons.prems(2) Some Returned l by simp_all
      have ev: "evolves st st2" using evolves_dispatch [of st d s1 arguments] Returned by simp
      have ks2: "\<forall>k\<in>set ks. k < length (array_at st2 a)"
        using Cons.prems(1) evolves_length [OF ev] by simp
      show ?thesis
      proof (cases "k = k0")
        case True
        then have "s = s1" using s0 Some by simp
        then show ?thesis using dr by simp
      next
        case False
        then have "k \<in> set ks" using Cons.prems(3) by simp
        from Cons.IH [OF ks2 _ this Cons.prems(4)] l dr show ?thesis by simp
      qed
    qed
  qed
qed


lemma slot_at_current [simp]: "slot_at (st\<lparr>currentSubscription := c\<rparr>) a k = slot_at st a k"
  by (simp add: slot_at_def array_at_def)

lemma listeners_current [simp]: "listeners t (st\<lparr>currentSubscription := c\<rparr>) = listeners t st"
  by (simp add: listeners_def getSubscriptionsForType_def array_at_def split: option.splits)

lemma emit_Some:
  assumes "getSubscriptionsForType t st = Some a" and "emit ap t args st = (ds, r)"
  obtains r' where "emit_loop ap a (Object_keys (array_at st a)) (Str t # args) st = (ds, r')"
    and "r = (case r' of Returned st' \<Rightarrow> Returned (st'\<lparr>currentSubscription := None\<rparr>)
                | Threw e st' \<Rightarrow> Threw e st')"
proof -
  obtain ds' r' where l: "emit_loop ap a (Object_keys (array_at st a)) (Str t # args) st = (ds', r')"
    by (cases "emit_loop ap a (Object_keys (array_at st a)) (Str t # args) st")
  show ?thesis
  proof (cases r')
    case (Returned st')
    then have "ds = ds'" "r = Returned (st'\<lparr>currentSubscription := None\<rparr>)"
      using assms l by (simp_all add: emit_def)
    then show ?thesis using that [of r'] l Returned by simp
  next
    case (Threw e st')
    then have "ds = ds'" "r = Threw e st'"
      using assms l by (simp_all add: emit_def)
    then show ?thesis using that [of r'] l Threw by simp
  qed
qed

lemma snapshot_keys: "\<forall>k\<in>set (Object_keys (array_at st a)). k < length (array_at st a)"
  using Object_keys_less by blast

lemma slot_in_snapshot: "slot_at st a k = Some s \<Longrightarrow> k \<in> set (Object_keys (array_at st a))"
  by (simp add: Object_keys_def slot_at_def split: if_splits)

lemma emit_dispatched_live:
  assumes "emit (apply_fn d) t args st = (ds, r)"
  shows "set ds \<subseteq> set (listeners t st)"
proof (cases "getSubscriptionsForType t st")
  case None
  then show ?thesis using assms by (simp add: emit_def)
next
  case (Some a)
  from emit_Some [OF Some assms] obtain r' where
    l: "emit_loop (apply_fn d) a (Object_keys (array_at st a)) (Str t # args) st = (ds, r')"
    by blast
  from emit_loop_dispatched_live [OF snapshot_keys l]
  have "\<forall>s\<in>set ds. \<exists>k. slot_at st a k = Some s" by blast
  then show ?thesis using Some by (auto simp: in_listeners getSubscriptionsForType_def)
qed

lemma emit_distinct:
  assumes "wf st" and "emit (apply_fn d) t args st = (ds, r)"
  shows "distinct ds"
proof (cases "getSubscriptionsForType t st")
  case None
  then show ?thesis using assms by (simp add: emit_def)
next
  case (Some a)
  from emit_Some [OF Some assms(2)] obtain r' where
    l: "emit_loop (apply_fn d) a (Object_keys (array_at st a)) (Str t # args) st = (ds, r')"
    by blast
  from emit_loop_distinct [OF assms(1) distinct_Object_keys snapshot_keys l] show ?thesis .
qed

lemma listeners_less: "wf st \<Longrightarrow> s \<in> set (listeners t st) \<Longrightarrow> s < length (objs st)"
  using wf_slot by (auto simp: in_listeners)

lemma emit_live_dispatched:
  assumes w: "wf st" and e: "emit (apply_fn d) t args st = (ds, r)" and ret: "returns r"
    and s0: "s \<in> set (listeners t st)" and s1: "slot_at (state_of r) b k = Some s"
  shows "s \<in> set ds"
proof -
  from s0 obtain a k0 where a: "subscriptionsForType st t = Some a" and k0: "slot_at st a k0 = Some s"
    by (auto simp: in_listeners)
  have g: "getSubscriptionsForType t st = Some a" using a by (simp add: getSubscriptionsForType_def)
  from emit_Some [OF g e] obtain r' where
    l: "emit_loop (apply_fn d) a (Object_keys (array_at st a)) (Str t # args) st = (ds, r')"
    and r: "r = (case r' of Returned st' \<Rightarrow> Returned (st'\<lparr>currentSubscription := None\<rparr>)
                | Threw e st' \<Rightarrow> Threw e st')"
    by blast
  from ret r obtain st' where r': "r' = Returned st'" and rr: "r = Returned (st'\<lparr>currentSubscription := None\<rparr>)"
    by (cases r') simp_all
  have ev: "evolves st (state_of r)"
    using evolves_emit [of st d t args] e by simp
  have sl: "s < length (objs st)" using wf_slot [OF w k0] by simp
  have "slot_at st b k = Some s" using evolves_fresh [OF ev s1 sl] .
  then have "b = a" "k = k0"
    using wf_unique [OF w _ k0] wf_slot [OF w k0] wf_slot [OF w, of b k s] by auto
  then have "slot_at st' a k0 = Some s" using s1 rr by simp
  from emit_loop_live_dispatched [OF snapshot_keys _ slot_in_snapshot [OF k0] this] l r'
  show ?thesis by simp
qed


lemma emit_calls:
  "wf st \<Longrightarrow> emit (apply_fn (Suc d)) t args st = (ds, r) \<Longrightarrow>
   \<forall>s\<in>set ds. (listener (objs st ! s), context' (objs st ! s), args) \<in> set (calls (state_of r))"
proof -
  assume w: "wf st" and e: "emit (apply_fn (Suc d)) t args st = (ds, r)"
  show ?thesis
  proof (cases "getSubscriptionsForType t st")
    case None
    then show ?thesis using e by (simp add: emit_def)
  next
    case (Some a)
    let ?ks = "Object_keys (array_at st a)"
    obtain ds' r' where l: "emit_loop (apply_fn (Suc d)) a ?ks (Str t # args) st = (ds', r')"
      by (cases "emit_loop (apply_fn (Suc d)) a ?ks (Str t # args) st")
    have "\<forall>k\<in>set ?ks. k < length (array_at st a)" using Object_keys_less by blast
    from emit_loop_calls [OF w evolves_refl this l]
    have c: "\<forall>s\<in>set ds'. (listener (objs st ! s), context' (objs st ! s), args)
        \<in> set (calls (state_of r'))" .
    show ?thesis
    proof (cases r')
      case (Returned st')
      then have "ds = ds'" "r = Returned (st'\<lparr>currentSubscription := None\<rparr>)"
        using e Some l by (simp_all add: emit_def)
      then show ?thesis using c Returned by simp
    next
      case (Threw x st')
      then have "ds = ds'" "r = r'"
        using e Some l by (simp_all add: emit_def)
      then show ?thesis using c by simp
    qed
  qed
qed



subsection \<open>Evaluating scenarios\<close>

lemmas scenario_defs = addListener_def new_EmitterSubscription_def addSubscription_def
  new_emitter_def getSubscriptionsForType_def array_at_def slot_at_def Object_keys_def
  emitToSubscription_def emit_def Let_def listeners_def filter_true_def List.map_filter_def
  removeSubscription_def removeCurrentListener_def once_def removeAllListeners_def
  removeAllSubscriptions_def

lemma listeners_disjoint:
  "wf st \<Longrightarrow> s \<in> set (listeners t st) \<Longrightarrow> s \<in> set (listeners t' st) \<Longrightarrow> t' = t"
proof -
  assume w: "wf st" and "s \<in> set (listeners t st)" "s \<in> set (listeners t' st)"
  then obtain a k a' k' where "subscriptionsForType st t = Some a" "slot_at st a k = Some s"
    "subscriptionsForType st t' = Some a'" "slot_at st a' k' = Some s"
    by (auto simp: in_listeners)
  then show ?thesis using wf_type [OF w] by metis
qed


subsection \<open>The current subscription while listeners run\<close>

lemma current_addListener: "currentSubscription (snd (addListener t l c st)) = currentSubscription st"
  by (simp add: addListener_def new_EmitterSubscription_def addSubscription_def Let_def
      split: option.splits)

lemma current_removeCurrentListener:
  "currentSubscription (state_of (removeCurrentListener st)) = currentSubscription st"
  by (simp add: removeCurrentListener_def removeSubscription_frame split: option.splits)

lemma current_exec_cmd:
  "\<not> is_Emit c \<Longrightarrow> currentSubscription (state_of (exec_cmd ap c st)) = currentSubscription st"
  by (cases c) (simp_all add: current_addListener once_def removeAllListeners_def removeAll_frame
      current_removeCurrentListener removeSubscription_frame)

lemma current_exec:
  "list_all (\<lambda>c. \<not> is_Emit c) cs \<Longrightarrow>
   currentSubscription (state_of (exec ap cs st)) = currentSubscription st"
proof (induction cs arbitrary: st)
  case Nil
  show ?case by simp
next
  case (Cons c cs)
  have c: "currentSubscription (state_of (exec_cmd ap c st)) = currentSubscription st"
    using current_exec_cmd Cons.prems by simp
  show ?case
  proof (cases "exec_cmd ap c st")
    case (Returned st')
    then show ?thesis using c Cons.IH [of st'] Cons.prems by simp
  next
    case (Threw e st')
    then show ?thesis using c by simp
  qed
qed

lemma current_apply_fn:
  "emit_free f \<Longrightarrow>
   currentSubscription (state_of (apply_fn d f this args st)) = currentSubscription st"
proof (induction d arbitrary: f this args st)
  case 0
  show ?case by simp
next
  case (Suc d)
  let ?st1 = "st\<lparr>calls := calls st @ [(f, this, args)]\<rparr>"
  show ?case
  proof (cases f)
    case (Fn n body)
    then show ?thesis using Suc.prems current_exec [of body "apply_fn d" ?st1]
      by (simp add: Let_def)
  next
    case (OnceWrapper l c)
    have c1: "currentSubscription (state_of (removeCurrentListener ?st1)) = currentSubscription st"
      by (simp add: current_removeCurrentListener)
    show ?thesis
    proof (cases "removeCurrentListener ?st1")
      case (Returned st2)
      then show ?thesis using OnceWrapper c1 Suc.IH [of l c args st2] Suc.prems
        by (simp add: Let_def)
    next
      case (Threw e st2)
      then show ?thesis using OnceWrapper c1 by (simp add: Let_def)
    qed
  qed
qed

text \<open>When the loop throws, the last dispatch is the one that threw.\<close>

lemma emit_loop_Threw:
  "\<forall>k\<in>set ks. k < length (array_at st a) \<Longrightarrow>
   emit_loop (apply_fn d) a ks arguments st = (ds, Threw e st') \<Longrightarrow>
   ds \<noteq> [] \<and> (\<exists>st1. evolves st st1 \<and>
     emitToSubscription (apply_fn d) (last ds) arguments (st1\<lparr>currentSubscription := Some (last ds)\<rparr>)
       = Threw e st')"
proof (induction ks arbitrary: st ds)
  case Nil
  then show ?case by simp
next
  case (Cons k ks)
  show ?case
  proof (cases "slot_at st a k")
    case None
    then have "emit_loop (apply_fn d) a ks arguments st = (ds, Threw e st')"
      using Cons.prems(2) by simp
    from Cons.IH [OF _ this] Cons.prems(1) show ?thesis by simp
  next
    case (Some s)
    let ?o = "emitToSubscription (apply_fn d) s arguments (st\<lparr>currentSubscription := Some s\<rparr>)"
    show ?thesis
    proof (cases ?o)
      case (Threw e2 st2)
      then have "ds = [s]" "e2 = e" "st2 = st'" using Cons.prems(2) Some by simp_all
      then show ?thesis using Threw evolves_refl [of st] by auto
    next
      case (Returned st2)
      obtain ds' r' where l: "emit_loop (apply_fn d) a ks arguments st2 = (ds', r')"
        by (cases "emit_loop (apply_fn d) a ks arguments st2")
      have dr: "ds = s # ds'" "r' = Threw e st'" using Cons.prems(2) Some Returned l by simp_all
      have ev: "evolves st st2" using evolves_dispatch [of st d s arguments] Returned by simp
      have ks2: "\<forall>k\<in>set ks. k < length (array_at st2 a)"
        using Cons.prems(1) evolves_length [OF ev] by simp
      from Cons.IH [OF ks2] l dr obtain st1 where
        ne: "ds' \<noteq> []" and ev1: "evolves st2 st1" and
        t: "emitToSubscription (apply_fn d) (last ds') arguments
              (st1\<lparr>currentSubscription := Some (last ds')\<rparr>) = Threw e st'"
        by blast
      have "evolves st st1" using evolves_trans [OF ev ev1] .
      then show ?thesis using ne t dr by auto
    qed
  qed
qed

subsection \<open>Dispatching to a subscription of \<open>once\<close>\<close>


lemma calls_grow_trans: "calls_grow st1 st2 \<Longrightarrow> calls_grow st2 st3 \<Longrightarrow> calls_grow st1 st3"
  unfolding calls_grow_def by (rule prefix_order.trans)

lemma calls_grow_current: "calls_grow st (st\<lparr>currentSubscription := c\<rparr>)"
  by (simp add: calls_grow_def)





subsection \<open>Every dispatch of an emission, nested ones included\<close>















































subsection \<open>The current subscription after a throwing listener\<close>

text \<open>
  C1. The claim: when \<open>emit\<close> finishes, the field tracking the subscription being
  invoked is null again, also when a listener throws mid-loop. On the emitter with the
  single throwing listener, \<open>emit('type1', 'data')\<close> throws the listener's exception
  and leaves the field set to the listener's subscription: the assignment on line 164 is
  skipped.
\<close>

theorem emit_throw_keeps_currentSubscription:
  "snd (emit (apply_fn 3) ''type1'' [Str ''data''] st_thrower)
     = Threw (Thrown (Str ''boom'')) st_stale \<and>
   currentSubscription st_thrower = None \<and>
   currentSubscription st_stale = Some 0"
  by (simp add: st_stale_def st_thrower_def thrower_def emit_def addListener_def
      new_EmitterSubscription_def addSubscription_def new_emitter_def
      getSubscriptionsForType_def array_at_def slot_at_def Object_keys_def
      emitToSubscription_def numeral_3_eq_3)

text \<open>
  C2. The claim: in every state in which no emission is in progress,
  \<open>removeCurrentListener\<close> raises the error. After the emission above has ended with
  the listener's exception no emission is in progress, and \<open>removeCurrentListener\<close>
  returns and removes the listener's subscription.
\<close>

theorem removeCurrentListener_after_throw_returns:
  "returns (removeCurrentListener st_stale) \<and>
   listeners ''type1'' st_stale = [0] \<and>
   listeners ''type1'' (state_of (removeCurrentListener st_stale)) = []"
  by (simp add: removeCurrentListener_def removeSubscription_def listeners_def filter_true_def
      List.map_filter_def st_stale_def st_thrower_def thrower_def emit_def addListener_def
      new_EmitterSubscription_def addSubscription_def new_emitter_def
      getSubscriptionsForType_def array_at_def slot_at_def Object_keys_def
      emitToSubscription_def numeral_3_eq_3)

subsection \<open>Listeners of a type\<close>

text \<open>
  C8. \<open>listeners(type)\<close> returns the live subscriptions in registration order:
  registering a listener appends its subscription to the result for its type and leaves
  the results for other types alone; removing a subscription deletes it from the result
  and keeps the others in their order; the result is empty for a type that has no
  collection, after \<open>removeAllListeners\<close>, and on a fresh emitter.
\<close>

theorem listeners_registration_order:
  "wf st \<Longrightarrow>
     listeners t (snd (addListener t l c st)) = listeners t st @ [fst (addListener t l c st)] \<and>
     (t' \<noteq> t \<longrightarrow> listeners t' (snd (addListener t l c st)) = listeners t' st) \<and>
     listeners t (removeSubscription s st) = filter (\<lambda>x. x \<noteq> s) (listeners t st) \<and>
     s \<notin> set (listeners t (removeSubscription s st)) \<and>
     (getSubscriptionsForType t st = None \<longrightarrow> listeners t st = []) \<and>
     listeners t (removeAllListeners None st) = [] \<and>
     listeners t (removeAllListeners (Some t) st) = [] \<and>
     listeners t new_emitter = []"
  by (simp add: listeners_addListener_same listeners_addListener_other
      listeners_removeSubscription listeners_unregistered listeners_removeAllListeners)
    (simp add: listeners_def getSubscriptionsForType_def new_emitter_def)

theorem listeners_registration_order_witness:
  "wf st_thrower \<and> ''type2'' \<noteq> ''type1'' \<and>
   getSubscriptionsForType ''type2'' st_thrower = None \<and>
   listeners ''type1'' st_two = [0, 1] \<and>
   listeners ''type2'' st_two = [] \<and>
   listeners ''type1'' (removeSubscription 0 st_thrower) = []"
proof -
  have w: "wf st_thrower" unfolding st_thrower_def by (rule wf_addListener [OF wf_new])
  have e: "listeners ''type1'' st_thrower = [0]" "listeners ''type2'' st_thrower = []"
    "getSubscriptionsForType ''type2'' st_thrower = None" "length (objs st_thrower) = 1"
    by (simp_all add: st_thrower_def addListener_def new_EmitterSubscription_def
        addSubscription_def new_emitter_def getSubscriptionsForType_def listeners_def
        array_at_def filter_true_def List.map_filter_def)
  show ?thesis
    using listeners_registration_order [OF w, of "''type1''" "Fn 2 []" Undefined "''type2''" 0] w e
    by (simp add: st_two_def fst_addListener)
qed

subsection \<open>Operations on what is not registered\<close>

text \<open>
  C9. For a type that has no collection, \<open>emit\<close> invokes nothing, returns and leaves
  the state as it is, \<open>listeners\<close> is empty, and removing all listeners of the type
  or one subscription of the type changes nothing; removing a subscription a second time
  changes nothing either. None of these raises.
\<close>

theorem unregistered_operations_are_silent:
  "(getSubscriptionsForType t st = None \<longrightarrow>
      emit ap t args st = ([], Returned st) \<and>
      listeners t st = [] \<and>
      removeAllListeners (Some t) st = st \<and>
      (eventType (objs st ! s) = t \<longrightarrow> removeSubscription s st = st)) \<and>
   removeSubscription s (removeSubscription s st) = removeSubscription s st \<and>
   (s < length (objs st) \<longrightarrow>
      returns (exec ap [Remove s, Remove s] st) \<and>
      state_of (exec ap [Remove s, Remove s] st) = removeSubscription s st)"
proof -
  have a: "emit ap t args st = ([], Returned st)" if "getSubscriptionsForType t st = None"
    using that by (simp add: emit_def)
  have b: "listeners t st = []" if "getSubscriptionsForType t st = None"
    using that by (rule listeners_unregistered)
  have c: "removeAllListeners (Some t) st = st" if "getSubscriptionsForType t st = None"
    using that
    by (simp add: removeAllListeners_def removeAllSubscriptions_def getSubscriptionsForType_def
        fun_upd_idem)
  have d: "removeSubscription s st = st"
    if "getSubscriptionsForType t st = None" "eventType (objs st ! s) = t"
    using that by (simp add: removeSubscription_def getSubscriptionsForType_def)
  have f: "exec ap [Remove s, Remove s] st = Returned (removeSubscription s st)"
    if "s < length (objs st)"
    using that by (simp add: removeSubscription_frame removeSubscription_twice)
  show ?thesis
    by (intro conjI impI) (simp_all add: a b c d f removeSubscription_twice removeSubscription_frame)
qed

theorem unregistered_operations_are_silent_witness:
  "getSubscriptionsForType ''type1'' st_cleared = None \<and>
   eventType (objs st_cleared ! 0) = ''type1'' \<and> 0 < length (objs st_cleared) \<and>
   emit (apply_fn 3) ''type1'' [Str ''data''] st_cleared = ([], Returned st_cleared) \<and>
   listeners ''type1'' st_cleared = [] \<and>
   removeAllListeners (Some ''type1'') st_cleared = st_cleared \<and>
   removeSubscription 0 st_cleared = st_cleared \<and>
   returns (exec (apply_fn 3) [Remove 0, Remove 0] st_cleared)"
proof -
  have e: "getSubscriptionsForType ''type1'' st_cleared = None"
    "eventType (objs st_cleared ! 0) = ''type1''" "0 < length (objs st_cleared)"
    by (simp_all add: st_cleared_def removeAllListeners_def removeAllSubscriptions_def
        st_thrower_def addListener_def new_EmitterSubscription_def addSubscription_def
        new_emitter_def getSubscriptionsForType_def Let_def array_at_def)
  show ?thesis
    using unregistered_operations_are_silent
      [of "''type1''" st_cleared "apply_fn 3" "[Str ''data'']" 0] e
    by simp
qed

subsection \<open>What a listener is invoked with\<close>

text \<open>
  C7, as amended. With at least one frame of stack left, every subscription that
  \<open>emit(type, args...)\<close> dispatches to has its listener applied to its registered
  context as the receiver and to the data arguments \<open>args\<close>; the event type is not
  among the arguments the listener receives (line 178 drops it): dispatching the
  arguments of \<open>emit\<close>, the type followed by \<open>args\<close>, applies the listener to
  \<open>args\<close>.
\<close>

theorem emit_passes_context_and_data_arguments:
  "wf st \<Longrightarrow> emit (apply_fn (Suc d)) t args st = (ds, r) \<Longrightarrow>
   (\<forall>s\<in>set ds. (listener (objs st ! s), context' (objs st ! s), args) \<in> set (calls (state_of r))) \<and>
   (\<forall>ap s st1. emitToSubscription ap s (Str t # args) st1
       = ap (listener (objs st1 ! s)) (context' (objs st1 ! s)) args st1)"
proof -
  assume w: "wf st" and e: "emit (apply_fn (Suc d)) t args st = (ds, r)"
  have "emitToSubscription ap s (Str t # args) st1
       = ap (listener (objs st1 ! s)) (context' (objs st1 ! s)) args st1" for ap s st1
    by (simp add: emitToSubscription_def)
  then show ?thesis using emit_calls [OF w e] by blast
qed

theorem emit_passes_context_and_data_arguments_witness:
  "wf st_ctx \<and>
   emit (apply_fn (Suc 2)) ''type1'' [Str ''data''] st_ctx =
     ([0], Returned (st_ctx\<lparr>calls := [(Fn 7 [], Ref 42, [Str ''data''])]\<rparr>)) \<and>
   (listener (objs st_ctx ! 0), context' (objs st_ctx ! 0), [Str ''data''])
     \<in> set (calls (st_ctx\<lparr>calls := [(Fn 7 [], Ref 42, [Str ''data''])]\<rparr>))"
proof -
  have w: "wf st_ctx" unfolding st_ctx_def by (rule wf_addListener [OF wf_new])
  have e: "emit (apply_fn (Suc 2)) ''type1'' [Str ''data''] st_ctx =
     ([0], Returned (st_ctx\<lparr>calls := [(Fn 7 [], Ref 42, [Str ''data''])]\<rparr>))"
    by (simp add: st_ctx_def emit_def addListener_def new_EmitterSubscription_def
        addSubscription_def new_emitter_def getSubscriptionsForType_def array_at_def slot_at_def
        Object_keys_def emitToSubscription_def Let_def numeral_3_eq_3)
  show ?thesis
    using emit_passes_context_and_data_arguments [OF w e] w e by simp
qed

text \<open>
  C7, as stated: the listener would receive the event type first and then the remaining
  arguments. On \<open>emit('type1', 'data')\<close> the listener is called once, with \<open>'data'\<close>
  alone.
\<close>

theorem listener_does_not_receive_event_type:
  "calls (state_of (snd (emit (apply_fn 3) ''type1'' [Str ''data''] st_ctx)))
     = [(Fn 7 [], Ref 42, [Str ''data''])] \<and>
   calls (state_of (snd (emit (apply_fn 3) ''type1'' [Str ''data''] st_ctx)))
     \<noteq> [(Fn 7 [], Ref 42, [Str ''type1'', Str ''data''])]"
  by (simp add: st_ctx_def emit_def addListener_def new_EmitterSubscription_def
      addSubscription_def new_emitter_def getSubscriptionsForType_def array_at_def slot_at_def
      Object_keys_def emitToSubscription_def Let_def numeral_3_eq_3)

subsection \<open>Listeners registered during an emission\<close>

text \<open>
  C3, as amended. One emission dispatches only to subscriptions that existed when it was
  called (\<open>st\<close> is the state at the call); a listener registered while it runs gets
  a subscription that did not exist then, so it is not invoked within that cycle. In a
  later emission for the type (\<open>st2\<close> is the state at its call) such a subscription is
  dispatched to whenever it is live at the call, the emission returns, and it is still
  live then.
\<close>

theorem added_during_emission_waits_for_next:
  "wf st \<Longrightarrow> emit (apply_fn d) t args st = (ds, r) \<Longrightarrow>
   wf st2 \<Longrightarrow> emit (apply_fn d2) t args2 st2 = (ds2, r2) \<Longrightarrow>
     (\<forall>n\<in>set ds. n < length (objs st)) \<and>
     (\<forall>st1 t' l c. evolves st st1 \<longrightarrow> length (objs st) \<le> fst (addListener t' l c st1)) \<and>
     (\<forall>n. returns r2 \<longrightarrow> n \<in> set (listeners t st2) \<longrightarrow> n \<in> set (listeners t (state_of r2)) \<longrightarrow>
        n \<in> set ds2)"
proof -
  assume w: "wf st" and e: "emit (apply_fn d) t args st = (ds, r)"
    and w2: "wf st2" and e2: "emit (apply_fn d2) t args2 st2 = (ds2, r2)"
  have a: "\<forall>n\<in>set ds. n < length (objs st)"
    using emit_dispatched_live [OF e] listeners_less [OF w] by blast
  have b: "length (objs st) \<le> fst (addListener t' l c st1)" if "evolves st st1" for st1 t' l c
    using that by (simp add: fst_addListener evolves_def)
  have c: "n \<in> set ds2"
    if "returns r2" "n \<in> set (listeners t st2)" "n \<in> set (listeners t (state_of r2))" for n
  proof -
    from that(3) obtain b k where "slot_at (state_of r2) b k = Some n" by (auto simp: in_listeners)
    from emit_live_dispatched [OF w2 e2 that(1) that(2) this] show ?thesis .
  qed
  show ?thesis using a b c by blast
qed

theorem added_during_emission_waits_for_next_witness:
  "wf st_adder \<and> wf st_added \<and> evolves st_adder st_added \<and>
   fst (emit (apply_fn 3) ''type1'' [] st_adder) = [0] \<and> length (objs st_adder) = 1 \<and>
   fst (addListener ''type1'' (Fn 2 []) Undefined st_added) = 2 \<and>
   listeners ''type1'' st_added = [0, 1] \<and>
   returns (snd (emit (apply_fn 3) ''type1'' [] st_added)) \<and>
   listeners ''type1'' (state_of (snd (emit (apply_fn 3) ''type1'' [] st_added))) = [0, 1, 2] \<and>
   fst (emit (apply_fn 3) ''type1'' [] st_added) = [0, 1]"
proof -
  have w: "wf st_adder" unfolding st_adder_def by (rule wf_addListener [OF wf_new])
  have w2: "wf st_added" unfolding st_added_def by (rule wf_emit [OF w])
  have ev: "evolves st_adder st_added" unfolding st_added_def by (rule evolves_emit)
  have e: "emit (apply_fn 3) ''type1'' [] st_adder =
      (fst (emit (apply_fn 3) ''type1'' [] st_adder), snd (emit (apply_fn 3) ''type1'' [] st_adder))"
    by simp
  have e2: "emit (apply_fn 3) ''type1'' [] st_added =
      (fst (emit (apply_fn 3) ''type1'' [] st_added), snd (emit (apply_fn 3) ''type1'' [] st_added))"
    by simp
  have v: "fst (emit (apply_fn 3) ''type1'' [] st_adder) = [0]" "length (objs st_adder) = 1"
    "listeners ''type1'' st_added = [0, 1]"
    "returns (snd (emit (apply_fn 3) ''type1'' [] st_added))"
    "listeners ''type1'' (state_of (snd (emit (apply_fn 3) ''type1'' [] st_added))) = [0, 1, 2]"
    "fst (emit (apply_fn 3) ''type1'' [] st_added) = [0, 1]"
    "length (objs st_added) = 2"
    by (simp_all add: st_added_def st_adder_def scenario_defs numeral_3_eq_3)
  show ?thesis
    using added_during_emission_waits_for_next [OF w e w2 e2] w w2 ev v
    by (simp add: fst_addListener)
qed

text \<open>
  C3, as stated: the added listener is invoked from the next \<open>emit\<close> for the type on.
  A listener that registers another one and then throws: the added subscription
  (number 1) is live when the next emission starts and is not dispatched to by it. And
  without any exception: when a second listener removes the added subscription (number
  2) in the cycle that added it, both emissions return and neither dispatches to it.
\<close>

theorem added_listener_not_invoked_by_next_emit:
  "listeners ''type1'' st_adder_thrower = [0] \<and>
   fst (emit (apply_fn 3) ''type1'' [] st_adder_thrower) = [0] \<and>
   listeners ''type1'' st_added_thrown = [0, 1] \<and>
   fst (emit (apply_fn 3) ''type1'' [] st_added_thrown) = [0] \<and>
   listeners ''type1'' (state_of (snd (emit (apply_fn 3) ''type1'' [] st_added_thrown))) = [0, 1, 2] \<and>
   length (objs st_add_rm) = 2 \<and> length (objs st_add_rm1) = 3 \<and>
   emit (apply_fn 3) ''type1'' [] st_add_rm = ([0, 1], Returned st_add_rm1) \<and>
   fst (emit (apply_fn 3) ''type1'' [] st_add_rm1) = [0, 1] \<and>
   returns (snd (emit (apply_fn 3) ''type1'' [] st_add_rm1))"
  by (simp add: st_added_thrown_def st_adder_thrower_def st_add_rm1_def st_add_rm_def
      scenario_defs numeral_3_eq_3)

subsection \<open>Which listeners an emission invokes\<close>

text \<open>
  C6, as amended. \<open>emit(type, x)\<close> dispatches to no subscription twice and only to
  subscriptions that are live for \<open>type\<close> when it is called, never to a subscription
  of another type; each dispatch applies the listener to its context and to \<open>x\<close>
  (with a frame of stack left); and when \<open>emit\<close> returns, every subscription that was
  live at the call and is still live has been dispatched to, exactly once.
\<close>

theorem emit_invokes_each_live_listener_once:
  "wf st \<Longrightarrow> emit (apply_fn (Suc d)) t args st = (ds, r) \<Longrightarrow>
     distinct ds \<and> set ds \<subseteq> set (listeners t st) \<and>
     (\<forall>s\<in>set ds. (listener (objs st ! s), context' (objs st ! s), args) \<in> set (calls (state_of r))) \<and>
     (\<forall>t' s. t' \<noteq> t \<longrightarrow> s \<in> set (listeners t' st) \<longrightarrow> s \<notin> set ds) \<and>
     (\<forall>s. returns r \<longrightarrow> s \<in> set (listeners t st) \<longrightarrow> s \<in> set (listeners t (state_of r)) \<longrightarrow>
        s \<in> set ds)"
proof -
  assume w: "wf st" and e: "emit (apply_fn (Suc d)) t args st = (ds, r)"
  have sub: "set ds \<subseteq> set (listeners t st)" using emit_dispatched_live [OF e] .
  have other: "s \<notin> set ds" if "t' \<noteq> t" "s \<in> set (listeners t' st)" for t' s
    using listeners_disjoint [OF w _ that(2), of t] that(1) sub by blast
  have live: "s \<in> set ds"
    if "returns r" "s \<in> set (listeners t st)" "s \<in> set (listeners t (state_of r))" for s
  proof -
    from that(3) obtain b k where "slot_at (state_of r) b k = Some s" by (auto simp: in_listeners)
    from emit_live_dispatched [OF w e that(1) that(2) this] show ?thesis .
  qed
  show ?thesis
    using emit_distinct [OF w e] sub emit_calls [OF w e] other live by blast
qed

theorem emit_invokes_each_live_listener_once_witness:
  "wf st_ab \<and>
   emit (apply_fn (Suc 2)) ''type1'' [Str ''data''] st_ab =
     ([0], Returned (st_ab\<lparr>calls := [(Fn 7 [], Ref 42, [Str ''data''])]\<rparr>)) \<and>
   listeners ''type1'' st_ab = [0] \<and> ''type2'' \<noteq> ''type1'' \<and> listeners ''type2'' st_ab = [1] \<and>
   returns (Returned (st_ab\<lparr>calls := [(Fn 7 [], Ref 42, [Str ''data''])]\<rparr>)) \<and>
   0 \<in> set (listeners ''type1'' (st_ab\<lparr>calls := [(Fn 7 [], Ref 42, [Str ''data''])]\<rparr>)) \<and>
   distinct [0::nat] \<and> 1 \<notin> set [0::nat] \<and>
   (listener (objs st_ab ! 0), context' (objs st_ab ! 0), [Str ''data''])
     \<in> set (calls (st_ab\<lparr>calls := [(Fn 7 [], Ref 42, [Str ''data''])]\<rparr>))"
proof -
  have w: "wf st_ab" unfolding st_ab_def st_ctx_def
    by (rule wf_addListener [OF wf_addListener [OF wf_new]])
  have e: "emit (apply_fn (Suc 2)) ''type1'' [Str ''data''] st_ab =
     ([0], Returned (st_ab\<lparr>calls := [(Fn 7 [], Ref 42, [Str ''data''])]\<rparr>))"
    by (simp add: st_ab_def st_ctx_def scenario_defs numeral_3_eq_3)
  have l: "listeners ''type1'' st_ab = [0]" "listeners ''type2'' st_ab = [1]"
    "listeners ''type1'' (st_ab\<lparr>calls := [(Fn 7 [], Ref 42, [Str ''data''])]\<rparr>) = [0]"
    by (simp_all add: st_ab_def st_ctx_def scenario_defs)
  show ?thesis
    using emit_invokes_each_live_listener_once [OF w e] w e l by simp
qed

text \<open>
  C6, as stated: every listener live at the time of the call is invoked exactly once.
  With two live listeners on \<open>type1\<close>, the second is not invoked when the first
  removes its subscription, and not when the first throws (it is then still live after
  the call).
\<close>

theorem live_listener_not_invoked:
  "listeners ''type1'' st_rm = [0, 1] \<and>
   fst (emit (apply_fn 3) ''type1'' [Str ''data''] st_rm) = [0] \<and>
   returns (snd (emit (apply_fn 3) ''type1'' [Str ''data''] st_rm)) \<and>
   listeners ''type1'' st_thr2 = [0, 1] \<and>
   fst (emit (apply_fn 3) ''type1'' [Str ''data''] st_thr2) = [0] \<and>
   listeners ''type1'' (state_of (snd (emit (apply_fn 3) ''type1'' [Str ''data''] st_thr2))) = [0, 1] \<and>
   calls (state_of (snd (emit (apply_fn 3) ''type1'' [Str ''data''] st_thr2)))
     = [(thrower, Undefined, [Str ''data''])]"
  by (simp add: st_rm_def st_thr2_def st_thrower_def thrower_def scenario_defs numeral_3_eq_3)

subsection \<open>Removal during an emission\<close>




subsection \<open>The stale current subscription\<close>

text \<open>
  C10, as amended. When \<open>emit\<close> ends with an exception, the last subscription it
  dispatched to is the one whose invocation threw; if that listener makes no nested
  \<open>emit\<close> call, the current subscription is still that subscription afterwards, and
  \<open>removeCurrentListener()\<close> then returns and removes it.
\<close>

theorem throw_leaves_stale_currentSubscription:
  "wf st \<Longrightarrow> emit (apply_fn d) t args st = (ds, Threw e st') \<Longrightarrow>
   emit_free (listener (objs st ! last ds)) \<Longrightarrow>
     ds \<noteq> [] \<and> currentSubscription st' = Some (last ds) \<and>
     removeCurrentListener st' = Returned (removeSubscription (last ds) st') \<and>
     (\<forall>t'. last ds \<notin> set (listeners t' (removeSubscription (last ds) st')))"
proof -
  assume w: "wf st" and e: "emit (apply_fn d) t args st = (ds, Threw e st')"
    and f: "emit_free (listener (objs st ! last ds))"
  obtain a where g: "getSubscriptionsForType t st = Some a"
    using e by (cases "getSubscriptionsForType t st") (simp_all add: emit_def)
  from emit_Some [OF g e] obtain r' where
    l: "emit_loop (apply_fn d) a (Object_keys (array_at st a)) (Str t # args) st = (ds, r')"
    and r: "Threw e st' = (case r' of Returned st' \<Rightarrow> Returned (st'\<lparr>currentSubscription := None\<rparr>)
                | Threw e st' \<Rightarrow> Threw e st')"
    by blast
  from r have r': "r' = Threw e st'" by (cases r') simp_all
  from emit_loop_Threw [OF snapshot_keys] l r' obtain st1 where
    ne: "ds \<noteq> []" and ev: "evolves st st1" and
    t: "emitToSubscription (apply_fn d) (last ds) (Str t # args)
          (st1\<lparr>currentSubscription := Some (last ds)\<rparr>) = Threw e st'"
    by blast
  let ?s = "last ds"
  have "?s \<in> set (listeners t st)"
    using emit_dispatched_live [OF e] ne by auto
  then have sl: "?s < length (objs st)" by (rule listeners_less [OF w])
  have o: "objs st1 ! ?s = objs st ! ?s" using evolves_objs [OF ev sl] .
  have cur: "currentSubscription st' = Some ?s"
    using current_apply_fn [OF f, of d "context' (objs st ! ?s)" args
        "st1\<lparr>currentSubscription := Some ?s\<rparr>"] t o
    by (simp add: emitToSubscription_def)
  have w': "wf st'" using wf_emit [OF w, of d t args] e by simp
  have "?s \<notin> set (listeners t' (removeSubscription ?s st'))" for t'
    by (simp add: listeners_removeSubscription [OF w'])
  then show ?thesis using ne cur by (simp add: removeCurrentListener_def)
qed

theorem throw_leaves_stale_currentSubscription_witness:
  "wf st_thrower \<and>
   emit (apply_fn 3) ''type1'' [Str ''data''] st_thrower = ([0], Threw (Thrown (Str ''boom'')) st_stale) \<and>
   emit_free (listener (objs st_thrower ! last [0])) \<and>
   currentSubscription st_stale = Some (last [0]) \<and>
   removeCurrentListener st_stale = Returned (removeSubscription (last [0]) st_stale) \<and>
   listeners ''type1'' st_stale = [0] \<and>
   last [0] \<notin> set (listeners ''type1'' (removeSubscription (last [0]) st_stale))"
proof -
  have w: "wf st_thrower" unfolding st_thrower_def by (rule wf_addListener [OF wf_new])
  have e: "emit (apply_fn 3) ''type1'' [Str ''data''] st_thrower
      = ([0], Threw (Thrown (Str ''boom'')) st_stale)"
    by (simp add: st_stale_def st_thrower_def thrower_def scenario_defs numeral_3_eq_3)
  have f: "emit_free (listener (objs st_thrower ! last [0]))"
    by (simp add: st_thrower_def thrower_def scenario_defs)
  have l: "listeners ''type1'' st_stale = [0]"
    by (simp add: st_stale_def st_thrower_def thrower_def scenario_defs numeral_3_eq_3)
  show ?thesis
    using throw_leaves_stale_currentSubscription [OF w e f] w e f l by simp
qed

text \<open>
  C10, as stated, for every listener that throws. A listener that emits another event,
  which has a listener, and then throws: the nested \<open>emit\<close> has reset the field
  (line 164), so after the outer \<open>emit\<close> has propagated the exception the field is
  null and \<open>removeCurrentListener()\<close> raises.
\<close>

theorem nested_emit_clears_currentSubscription_before_throw:
  "fst (emit (apply_fn 3) ''type1'' [] st_nested) = [0] \<and>
   \<not> returns (snd (emit (apply_fn 3) ''type1'' [] st_nested)) \<and>
   currentSubscription (state_of (snd (emit (apply_fn 3) ''type1'' [] st_nested))) = None \<and>
   removeCurrentListener (state_of (snd (emit (apply_fn 3) ''type1'' [] st_nested)))
     = Threw (Error ''Not in an emitting cycle; there is no current subscription'')
         (state_of (snd (emit (apply_fn 3) ''type1'' [] st_nested)))"
  by (simp add: st_nested_def scenario_defs numeral_3_eq_3)

subsection \<open>Listeners registered with \<open>once\<close>\<close>




end
